theory Spec2Isabelle
  imports Main "HOL-Library.Word" "HOL-Library.Char_ord" "HOL-Library.List_Lexorder"
begin

section \<open>The regular expression engine used by the parser\<close>

text \<open>
  \<^verbatim>\<open>types/version/version.go\<close> validates its input with a pattern compiled by Go's
  \<^verbatim>\<open>regexp\<close> package. The pattern language is embedded as a datatype holding the
  operators the pattern uses. A non-capturing group \<^verbatim>\<open>(?:r)\<close> only brackets and has no
  constructor of its own; a capturing group carries its index. A Go string is a sequence of
  bytes, here a \<open>char list\<close>; every literal and class of the pattern is ASCII, so a byte
  outside ASCII matches nothing, as the code point it belongs to does in Go.
\<close>

datatype regex =
    BeginText                        \<comment> \<open>\<^verbatim>\<open>^\<close>: the beginning of the text\<close>
  | EndText                          \<comment> \<open>\<^verbatim>\<open>$\<close>: the end of the text (no flag \<^verbatim>\<open>m\<close>)\<close>
  | Lit char                         \<comment> \<open>one literal byte, \<^verbatim>\<open>\.\<close>, \<^verbatim>\<open>-\<close>, \<^verbatim>\<open>\+\<close>, \<^verbatim>\<open>0\<close>\<close>
  | Cls "(char \<times> char) list"        \<comment> \<open>a class \<^verbatim>\<open>[...]\<close>: its inclusive ranges\<close>
  | Cat regex regex                  \<comment> \<open>\<^verbatim>\<open>r1r2\<close>\<close>
  | Alt regex regex                  \<comment> \<open>\<^verbatim>\<open>r1|r2\<close>, preferring \<^verbatim>\<open>r1\<close>\<close>
  | Star regex                       \<comment> \<open>\<^verbatim>\<open>r*\<close>, preferring more\<close>
  | Quest regex                      \<comment> \<open>\<^verbatim>\<open>r?\<close>, preferring one\<close>
  | Cap nat regex                    \<comment> \<open>\<^verbatim>\<open>(r)\<close>, the capturing group of that index\<close>

definition Plus :: "regex \<Rightarrow> regex" where
  \<comment> \<open>\<^verbatim>\<open>r+\<close>, preferring more\<close>
  "Plus r = Cat r (Star r)"

definition in_class :: "char \<Rightarrow> (char \<times> char) list \<Rightarrow> bool" where
  "in_class x rs = list_ex (\<lambda>(lo, hi). lo \<le> x \<and> x \<le> hi) rs"

type_synonym caps = "string option list"

text \<open>
  Go's \<^verbatim>\<open>regexp\<close> returns the match that a backtracking search finds first (leftmost-first).
  \<open>run n r s c\<close> lists, in that order of preference, the ways in which \<open>r\<close> matches a prefix of
  the remaining text \<open>s\<close>: each is the text left over and the capture registers, starting from
  the registers \<open>c\<close>; \<open>n\<close> is the length of the whole text. An iteration of \<^verbatim>\<open>r*\<close> that consumes
  nothing is not repeated.
\<close>

function run :: "nat \<Rightarrow> regex \<Rightarrow> string \<Rightarrow> caps \<Rightarrow> (string \<times> caps) list" where
  "run n BeginText s c = (if length s = n then [(s, c)] else [])"
| "run n EndText s c = (if s = [] then [(s, c)] else [])"
| "run n (Lit a) s c = (case s of [] \<Rightarrow> [] | x # t \<Rightarrow> if x = a then [(t, c)] else [])"
| "run n (Cls rs) s c = (case s of [] \<Rightarrow> [] | x # t \<Rightarrow> if in_class x rs then [(t, c)] else [])"
| "run n (Cat r1 r2) s c = concat (map (\<lambda>p. run n r2 (fst p) (snd p)) (run n r1 s c))"
| "run n (Alt r1 r2) s c = run n r1 s c @ run n r2 s c"
| "run n (Star r) s c =
     concat (map (\<lambda>p. run n (Star r) (fst p) (snd p))
                 (filter (\<lambda>p. length (fst p) < length s) (run n r s c))) @ [(s, c)]"
| "run n (Quest r) s c = run n r s c @ [(s, c)]"
| "run n (Cap i r) s c =
     map (\<lambda>p. (fst p, (snd p)[i := Some (take (length s - length (fst p)) s)])) (run n r s c)"
  by pat_completeness auto
termination
  by (relation "measures [\<lambda>(n, r, s, c). size r, \<lambda>(n, r, s, c). length s]") auto

text \<open>
  An unanchored search tries the start positions from left to right and stops at the first
  position where the pattern matches; there it takes the preferred match.
\<close>

fun find_from :: "nat \<Rightarrow> regex \<Rightarrow> string \<Rightarrow> caps \<Rightarrow> caps option" where
  "find_from n r [] c = (case run n r [] c of [] \<Rightarrow> None | p # _ \<Rightarrow> Some (snd p))"
| "find_from n r (x # t) c =
     (case run n r (x # t) c of [] \<Rightarrow> find_from n r t c | p # _ \<Rightarrow> Some (snd p))"

fun NumSubexp :: "regex \<Rightarrow> nat" where
  "NumSubexp (Cat r1 r2) = NumSubexp r1 + NumSubexp r2"
| "NumSubexp (Alt r1 r2) = NumSubexp r1 + NumSubexp r2"
| "NumSubexp (Star r) = NumSubexp r"
| "NumSubexp (Quest r) = NumSubexp r"
| "NumSubexp (Cap i r) = Suc (NumSubexp r)"
| "NumSubexp r = 0"

definition find_caps :: "regex \<Rightarrow> string \<Rightarrow> caps option" where
  \<comment> \<open>register 0 is the whole match, registers \<open>1..NumSubexp r\<close> the groups\<close>
  "find_caps r s = find_from (length s) (Cap 0 r) s (replicate (Suc (NumSubexp r)) None)"

definition MatchString :: "regex \<Rightarrow> string \<Rightarrow> bool" where
  "MatchString r s = (find_caps r s \<noteq> None)"

definition FindStringSubmatch :: "regex \<Rightarrow> string \<Rightarrow> string list" where
  \<comment> \<open>\<^verbatim>\<open>nil\<close> (of length 0) when there is no match; a group that took no part is \<^verbatim>\<open>""\<close>\<close>
  "FindStringSubmatch r s =
     (case find_caps r s of
        None \<Rightarrow> []
      | Some c \<Rightarrow> map (\<lambda>m. case m of None \<Rightarrow> [] | Some w \<Rightarrow> w) c)"

subsection \<open>The pattern \<^verbatim>\<open>re\<close>\<close>

definition digit :: regex where
  \<comment> \<open>\<^verbatim>\<open>\d\<close>\<close>
  "digit = Cls [(CHR ''0'', CHR ''9'')]"

definition numeric :: regex where
  \<comment> \<open>\<^verbatim>\<open>0|[1-9]\d*\<close>\<close>
  "numeric = Alt (Lit CHR ''0'') (Cat (Cls [(CHR ''1'', CHR ''9'')]) (Star digit))"

definition idchar :: regex where
  \<comment> \<open>\<^verbatim>\<open>[0-9a-zA-Z-]\<close>\<close>
  "idchar = Cls [(CHR ''0'', CHR ''9''), (CHR ''a'', CHR ''z''), (CHR ''A'', CHR ''Z''),
                 (CHR ''-'', CHR ''-'')]"

definition pre_ident :: regex where
  \<comment> \<open>\<^verbatim>\<open>0|[1-9]\d*|\d*[a-zA-Z-][0-9a-zA-Z-]*\<close>\<close>
  "pre_ident =
     Alt (Lit CHR ''0'')
    (Alt (Cat (Cls [(CHR ''1'', CHR ''9'')]) (Star digit))
         (Cat (Star digit)
         (Cat (Cls [(CHR ''a'', CHR ''z''), (CHR ''A'', CHR ''Z''), (CHR ''-'', CHR ''-'')])
              (Star idchar))))"

definition pre_release :: regex where
  \<comment> \<open>the body of group 4: an identifier, then \<^verbatim>\<open>(?:\.identifier)*\<close>\<close>
  "pre_release = Cat pre_ident (Star (Cat (Lit CHR ''.'') pre_ident))"

definition build_meta :: regex where
  \<comment> \<open>the body of group 5: \<^verbatim>\<open>[0-9a-zA-Z-]+(?:\.[0-9a-zA-Z-]+)*\<close>\<close>
  "build_meta = Cat (Plus idchar) (Star (Cat (Lit CHR ''.'') (Plus idchar)))"

definition re :: regex where
  "re =
     Cat BeginText
    (Cat (Cap 1 numeric)
    (Cat (Lit CHR ''.'')
    (Cat (Cap 2 numeric)
    (Cat (Lit CHR ''.'')
    (Cat (Cap 3 numeric)
    (Cat (Quest (Cat (Lit CHR ''-'') (Cap 4 pre_release)))
    (Cat (Quest (Cat (Lit CHR ''+'') (Cap 5 build_meta)))
         EndText)))))))"

section \<open>Library functions the parser calls\<close>

text \<open>
  \<^verbatim>\<open>strings.TrimPrefix(s, "v")\<close>: \<open>s\<close> without the leading \<^verbatim>\<open>v\<close> when it has one, and
  \<open>s\<close> itself otherwise.
\<close>

definition TrimPrefix :: "string \<Rightarrow> string \<Rightarrow> string" where
  "TrimPrefix s p = (if take (length p) s = p then drop (length p) s else s)"

text \<open>
  \<^verbatim>\<open>strconv.ParseUint(s, 10, 64)\<close>. The loop reads the bytes from the left into a 64-bit
  accumulator. In base 10 a byte that is no decimal digit is a syntax error (a letter is a
  digit value of at least 10, which the base excludes). The value leaves the 64 bits when
  the accumulator has reached \<^verbatim>\<open>cutoff\<close>, which is \<^verbatim>\<open>maxUint64/10 + 1\<close>, before it is
  multiplied, or when adding the digit wraps around or exceeds \<^verbatim>\<open>maxVal\<close>, which is
  \<^verbatim>\<open>1<<64 - 1\<close>: a range error.
\<close>

datatype num_err = ErrSyntax | ErrRange

definition cutoff :: "64 word" where
  "cutoff = 18446744073709551615 div 10 + 1"

definition maxVal :: "64 word" where
  "maxVal = push_bit 64 1 - 1"

fun parse_digits :: "64 word \<Rightarrow> string \<Rightarrow> num_err + 64 word" where
  "parse_digits n [] = Inr n"
| "parse_digits n (x # t) =
     (if \<not> (CHR ''0'' \<le> x \<and> x \<le> CHR ''9'') then Inl ErrSyntax
      else if cutoff \<le> n then Inl ErrRange
      else let n10 = n * 10; n1 = n10 + (of_char x - 48) in
        if n1 < n10 \<or> maxVal < n1 then Inl ErrRange else parse_digits n1 t)"

definition ParseUint :: "string \<Rightarrow> num_err + 64 word" where
  "ParseUint s = (if s = [] then Inl ErrSyntax else parse_digits 0 s)"

text \<open>\<^verbatim>\<open>fmt.Sprintf("%d", n)\<close> for an unsigned \<open>n\<close>: its decimal numeral.\<close>

fun decimal :: "nat \<Rightarrow> string" where
  "decimal n =
     (if n < 10 then [char_of (48 + n)] else decimal (n div 10) @ [char_of (48 + n mod 10)])"

section \<open>Versions\<close>

record Version =
  Major :: "64 word"
  Minor :: "64 word"
  Patch :: "64 word"
  PreRelease :: string
  Build :: string

definition zero_Version :: Version where
  \<comment> \<open>\<^verbatim>\<open>Version{}\<close>\<close>
  "zero_Version = \<lparr>Major = 0, Minor = 0, Patch = 0, PreRelease = [], Build = []\<rparr>"

text \<open>
  The errors of the package. \<^verbatim>\<open>ErrEmpty\<close> and \<^verbatim>\<open>ErrInvalidFormat\<close> are the two exported
  values; \<open>ErrNumeric num e\<close> is \<^verbatim>\<open>errors.Join(ErrBase, err)\<close> for the error \<open>err\<close> that
  \<^verbatim>\<open>strconv.ParseUint\<close> returned on the numeral \<open>num\<close>.
\<close>

datatype error = ErrEmpty | ErrInvalidFormat | ErrNumeric string num_err

definition String :: "Version \<Rightarrow> string" where
  "String v =
     (let version = decimal (unat (Major v)) @ ''.'' @ decimal (unat (Minor v)) @ ''.''
                      @ decimal (unat (Patch v));
          version = (if PreRelease v \<noteq> [] then version @ ''-'' @ PreRelease v else version);
          version = (if Build v \<noteq> [] then version @ ''+'' @ Build v else version)
      in version)"

text \<open>
  \<^verbatim>\<open>Compare\<close> returns an \<^verbatim>\<open>int8\<close> that is one of the literals 1, -1 and 0. Go compares
  strings byte by byte, which is the lexicographic order on \<open>char list\<close>.
\<close>

definition Compare :: "Version \<Rightarrow> Version \<Rightarrow> int" where
  "Compare v other =
     (if Major v \<noteq> Major other then (if Major v > Major other then 1 else -1)
      else if Minor v \<noteq> Minor other then (if Minor v > Minor other then 1 else -1)
      else if Patch v \<noteq> Patch other then (if Patch v > Patch other then 1 else -1)
      else if PreRelease v = [] \<and> PreRelease other \<noteq> [] then 1
      else if PreRelease v \<noteq> [] \<and> PreRelease other = [] then -1
      else if PreRelease v \<noteq> [] \<and> PreRelease other \<noteq> [] then
        (if PreRelease v > PreRelease other then 1
         else if PreRelease v < PreRelease other then -1
         else 0)
      else 0)"

text \<open>
  \<^verbatim>\<open>TryParse\<close> returns a Version and an error, \<open>None\<close> standing for \<^verbatim>\<open>nil\<close>.
\<close>

definition TryParse :: "string \<Rightarrow> Version \<times> error option" where
  "TryParse input =
     (if input = [] then (zero_Version, Some ErrEmpty)
      else let version = TrimPrefix input ''v'' in
        if \<not> MatchString re version then (zero_Version, Some ErrInvalidFormat)
        else let matches = FindStringSubmatch re version in
          if length matches < 6 then (zero_Version, Some ErrInvalidFormat)
          else case ParseUint (matches ! 1) of
            Inl err \<Rightarrow> (zero_Version, Some (ErrNumeric (matches ! 1) err))
          | Inr major \<Rightarrow>
          (case ParseUint (matches ! 2) of
            Inl err \<Rightarrow> (zero_Version, Some (ErrNumeric (matches ! 2) err))
          | Inr minor \<Rightarrow>
          (case ParseUint (matches ! 3) of
            Inl err \<Rightarrow> (zero_Version, Some (ErrNumeric (matches ! 3) err))
          | Inr patch \<Rightarrow>
             (\<lparr>Major = major, Minor = minor, Patch = patch,
               PreRelease = matches ! 4, Build = matches ! 5\<rparr>, None))))"

text \<open>\<^verbatim>\<open>Parse\<close> panics with the error of \<^verbatim>\<open>TryParse\<close>; the panic is the left injection.\<close>

definition Parse :: "string \<Rightarrow> error + Version" where
  "Parse input = (case TryParse input of (version, Some err) \<Rightarrow> Inl err | (version, None) \<Rightarrow> Inr version)"

section \<open>Notions used to state the properties\<close>

text \<open>
  The declarative reading of a pattern: \<open>matches r w\<close> holds when the word \<open>w\<close> belongs to
  the language of \<open>r\<close>. The two anchors match the empty word (where they stand is checked
  by \<open>run\<close>), and a capturing group matches what its body matches.
\<close>

inductive matches :: "regex \<Rightarrow> string \<Rightarrow> bool" where
  m_Begin: "matches BeginText []"
| m_End: "matches EndText []"
| m_Lit: "matches (Lit a) [a]"
| m_Cls: "in_class x rs \<Longrightarrow> matches (Cls rs) [x]"
| m_Cat: "matches r1 u \<Longrightarrow> matches r2 v \<Longrightarrow> matches (Cat r1 r2) (u @ v)"
| m_Alt1: "matches r1 u \<Longrightarrow> matches (Alt r1 r2) u"
| m_Alt2: "matches r2 u \<Longrightarrow> matches (Alt r1 r2) u"
| m_Star0: "matches (Star r) []"
| m_Star: "matches r u \<Longrightarrow> matches (Star r) v \<Longrightarrow> matches (Star r) (u @ v)"
| m_Quest0: "matches (Quest r) []"
| m_Quest: "matches r u \<Longrightarrow> matches (Quest r) u"
| m_Cap: "matches r u \<Longrightarrow> matches (Cap i r) u"

definition is_digit :: "char \<Rightarrow> bool" where
  "is_digit x = (CHR ''0'' \<le> x \<and> x \<le> CHR ''9'')"

text \<open>The number that a string of decimal digits denotes, as an unbounded natural.\<close>

fun val_from :: "nat \<Rightarrow> string \<Rightarrow> nat" where
  "val_from a [] = a"
| "val_from a (x # t) = val_from (10 * a + (of_char x - 48)) t"

definition dec_val :: "string \<Rightarrow> nat" where
  "dec_val w = val_from 0 w"

text \<open>A numeral without leading zeros: \<^verbatim>\<open>0\<close>, or a digit from 1 to 9 followed by digits.\<close>

definition canonical :: "string \<Rightarrow> bool" where
  "canonical w =
     (w = ''0'' \<or>
      (\<exists>x t. w = x # t \<and> CHR ''1'' \<le> x \<and> x \<le> CHR ''9'' \<and> (\<forall>y\<in>set t. is_digit y)))"

text \<open>
  \<open>dotdot w\<close>: two dots stand next to each other somewhere in \<open>w\<close>. A word is \<open>dotted\<close>
  when it is not empty, neither begins nor ends with a dot, and has no two adjacent dots:
  read as a dot-separated list, none of its segments is empty.
\<close>

fun dotdot :: "string \<Rightarrow> bool" where
  "dotdot (x # y # t) = (x = CHR ''.'' \<and> y = CHR ''.'' \<or> dotdot (y # t))"
| "dotdot _ = False"

definition dotted :: "string \<Rightarrow> bool" where
  "dotted w = (w \<noteq> [] \<and> hd w \<noteq> CHR ''.'' \<and> last w \<noteq> CHR ''.'' \<and> \<not> dotdot w)"

text \<open>
  What an optional group \<^verbatim>\<open>(?:a(r))?\<close> contributes to the matched text: nothing when it
  took no part, the separator \<open>a\<close> and the captured text otherwise.
\<close>

definition opt_part :: "char \<Rightarrow> string option \<Rightarrow> string" where
  "opt_part a g = (case g of None \<Rightarrow> [] | Some x \<Rightarrow> a # x)"

text \<open>
  A pattern without anchors; the parts of \<open>re\<close> after its leading anchor are named from
  the right: \<open>tail7\<close> is the build group and the closing anchor, \<open>tail1\<close> all but the
  leading anchor.
\<close>

fun anchor_free :: "regex \<Rightarrow> bool" where
  "anchor_free BeginText = False"
| "anchor_free EndText = False"
| "anchor_free (Lit a) = True"
| "anchor_free (Cls rs) = True"
| "anchor_free (Cat r1 r2) = (anchor_free r1 \<and> anchor_free r2)"
| "anchor_free (Alt r1 r2) = (anchor_free r1 \<and> anchor_free r2)"
| "anchor_free (Star r) = anchor_free r"
| "anchor_free (Quest r) = anchor_free r"
| "anchor_free (Cap i r) = anchor_free r"

definition tail7 :: regex where
  "tail7 = Cat (Quest (Cat (Lit CHR ''+'') (Cap 5 build_meta))) EndText"

definition tail6 :: regex where
  "tail6 = Cat (Quest (Cat (Lit CHR ''-'') (Cap 4 pre_release))) tail7"

definition tail5 :: regex where
  "tail5 = Cat (Cap 3 numeric) tail6"

definition tail3 :: regex where
  "tail3 = Cat (Cap 2 numeric) (Cat (Lit CHR ''.'') tail5)"

definition tail1 :: regex where
  "tail1 = Cat (Cap 1 numeric) (Cat (Lit CHR ''.'') tail3)"

section \<open>The grammar in the words of the specification\<close>

text \<open>
  The specification describes a valid version as \<^verbatim>\<open>MAJOR.MINOR.PATCH[-PRERELEASE][+BUILD]\<close>.
  The definitions below follow its words and not the pattern of the code, with which they
  are compared later. The build metadata is what follows the first \<^verbatim>\<open>+\<close>; the prerelease
  is what follows the first \<^verbatim>\<open>-\<close> of the text before it; what remains is the core.
  \<open>cut_at a s\<close> cuts \<open>s\<close> at the first \<open>a\<close>, and \<open>split_on a s\<close> lists the segments of
  \<open>s\<close> between the occurrences of \<open>a\<close>, the empty ones too.
\<close>

definition is_idchar :: "char \<Rightarrow> bool" where
  "is_idchar x = (is_digit x \<or> (CHR ''a'' \<le> x \<and> x \<le> CHR ''z'') \<or>
                  (CHR ''A'' \<le> x \<and> x \<le> CHR ''Z'') \<or> x = CHR ''-'')"

definition cut_at :: "char \<Rightarrow> string \<Rightarrow> string \<times> string option" where
  "cut_at a s =
     (takeWhile (\<lambda>x. x \<noteq> a) s,
      case dropWhile (\<lambda>x. x \<noteq> a) s of [] \<Rightarrow> None | _ # r \<Rightarrow> Some r)"

fun split_on :: "char \<Rightarrow> string \<Rightarrow> string list" where
  "split_on a [] = [[]]"
| "split_on a (x # t) =
     (if x = a then [] # split_on a t
      else case split_on a t of [] \<Rightarrow> [[x]] | h # r \<Rightarrow> (x # h) # r)"

definition core_text :: "string \<Rightarrow> string" where
  "core_text s = fst (cut_at CHR ''-'' (fst (cut_at CHR ''+'' s)))"

definition prerelease_text :: "string \<Rightarrow> string option" where
  "prerelease_text s = snd (cut_at CHR ''-'' (fst (cut_at CHR ''+'' s)))"

definition build_text :: "string \<Rightarrow> string option" where
  "build_text s = snd (cut_at CHR ''+'' s)"

text \<open>
  A prerelease identifier is a numeric identifier without leading zero, or an identifier of
  letters, digits and hyphens with at least one character that is no digit. A build
  identifier is a non-empty identifier of letters, digits and hyphens. The core is three
  numerals without leading zeros; prerelease and build, when present, are dot-separated
  lists of their identifiers.
\<close>

definition prerelease_identifier :: "string \<Rightarrow> bool" where
  "prerelease_identifier w = (canonical w \<or> (list_all is_idchar w \<and> \<not> list_all is_digit w))"

definition build_identifier :: "string \<Rightarrow> bool" where
  "build_identifier w = (w \<noteq> [] \<and> list_all is_idchar w)"

definition semver_grammar :: "string \<Rightarrow> bool" where
  "semver_grammar s =
     ((case split_on CHR ''.'' (core_text s) of
         [major, minor, patch] \<Rightarrow> canonical major \<and> canonical minor \<and> canonical patch
       | _ \<Rightarrow> False) \<and>
      (case prerelease_text s of
         None \<Rightarrow> True
       | Some p \<Rightarrow> list_all prerelease_identifier (split_on CHR ''.'' p)) \<and>
      (case build_text s of
         None \<Rightarrow> True
       | Some b \<Rightarrow> list_all build_identifier (split_on CHR ''.'' b)))"

section \<open>Decimal numerals\<close>

lemma is_digit_iff: "is_digit x \<longleftrightarrow> 48 \<le> (of_char x :: nat) \<and> (of_char x :: nat) \<le> 57"
  by (simp add: is_digit_def less_eq_char_def)

lemma of_char_word_unat: "unat (of_char x :: 64 word) = of_char x"
proof -
  have "(of_char x :: nat) < 256"
    using of_char_mod_256 [of x, where ?'a = nat] by (metis mod_less_divisor zero_less_numeral)
  then have "(of_char x :: nat) < 2 ^ 64" by (rule less_trans) simp
  then have "unat (word_of_nat (of_char x) :: 64 word) = of_char x"
    by (simp add: unat_of_nat)
  then show ?thesis by (simp add: of_nat_of_char)
qed

lemma digit_word_unat:
  assumes "is_digit x"
  shows "unat (of_char x - 48 :: 64 word) = of_char x - 48"
proof -
  have "(48 :: 64 word) \<le> of_char x"
    using assms by (simp add: word_le_nat_alt of_char_word_unat is_digit_iff)
  then have "unat (of_char x - 48 :: 64 word) = unat (of_char x :: 64 word) - unat (48 :: 64 word)"
    by (rule unat_sub)
  then show ?thesis by (simp add: of_char_word_unat)
qed

lemma val_from_ge: "a \<le> val_from a t"
proof (induction t arbitrary: a)
  case Nil
  show ?case by simp
next
  case (Cons x t)
  have "a \<le> 10 * a + (of_char x - 48)" by simp
  also have "\<dots> \<le> val_from (10 * a + (of_char x - 48)) t" by (rule Cons.IH)
  finally show ?case by simp
qed

lemma cutoff_value [code]: "cutoff = 1844674407370955162"
  by (simp add: cutoff_def)

lemma maxVal_value [code]: "maxVal = - 1"
  by (simp add: maxVal_def)

lemma maxVal_greatest: "\<not> maxVal < n"
proof -
  have "n \<le> - 1" by (rule word_n1_ge)
  then show ?thesis by (simp only: maxVal_value not_less)
qed

lemma parse_digits_spec:
  "\<forall>x\<in>set ds. is_digit x \<Longrightarrow>
   parse_digits n ds =
     (if val_from (unat n) ds < 2 ^ 64 then Inr (word_of_nat (val_from (unat n) ds))
      else Inl ErrRange)"
proof (induction ds arbitrary: n)
  case Nil
  have "unat n < 2 ^ LENGTH(64)" by (rule unsigned_less)
  then show ?case by simp
next
  case (Cons x t)
  then have dx: "is_digit x" and dt: "\<forall>y\<in>set t. is_digit y" by simp_all
  have d9: "(of_char x :: nat) - 48 \<le> 9" using dx unfolding is_digit_iff by arith
  have ud: "unat (of_char x - 48 :: 64 word) = of_char x - 48" using dx by (rule digit_word_unat)
  have guard: "\<not> (\<not> (CHR ''0'' \<le> x \<and> x \<le> CHR ''9''))" using dx by (simp add: is_digit_def)
  show ?case
  proof (cases "cutoff \<le> n")
    case True
    then have "1844674407370955162 \<le> unat n"
      by (simp add: cutoff_value word_le_nat_alt)
    then have "2 ^ 64 \<le> 10 * unat n + (of_char x - 48)" by simp
    also have "\<dots> \<le> val_from (10 * unat n + (of_char x - 48)) t" by (rule val_from_ge)
    finally have "\<not> val_from (unat n) (x # t) < 2 ^ 64" by simp
    then show ?thesis using True guard by simp
  next
    case False
    then have lt: "unat n < 1844674407370955162"
      by (simp add: cutoff_value word_le_nat_alt)
    then have "unat n * unat (10 :: 64 word) < 2 ^ LENGTH(64)" by simp
    then have u10: "unat (n * 10) = unat n * 10"
      using unat_mult_lem [of n "10 :: 64 word"] by simp
    show ?thesis
    proof (cases "n * 10 + (of_char x - 48) < n * 10")
      case True
      then have "\<not> n * 10 \<le> n * 10 + (of_char x - 48)" by simp
      then have "\<not> unat (n * 10) + unat (of_char x - 48 :: 64 word) < 2 ^ 64"
        using no_olen_add_nat [of "n * 10" "of_char x - 48"] by simp
      then have "2 ^ 64 \<le> 10 * unat n + (of_char x - 48)"
        by (simp add: u10 ud)
      also have "\<dots> \<le> val_from (10 * unat n + (of_char x - 48)) t" by (rule val_from_ge)
      finally have "\<not> val_from (unat n) (x # t) < 2 ^ 64" by simp
      then show ?thesis using True \<open>\<not> cutoff \<le> n\<close> guard by (simp add: Let_def)
    next
      case False
      then have "n * 10 \<le> n * 10 + (of_char x - 48)" by simp
      then have "unat (n * 10) + unat (of_char x - 48 :: 64 word) < 2 ^ 64"
        using no_olen_add_nat [of "n * 10" "of_char x - 48"] by simp
      then have "unat (n * 10 + (of_char x - 48)) = unat (n * 10) + unat (of_char x - 48 :: 64 word)"
        using unat_add_lem [of "n * 10" "of_char x - 48"] by simp
      then have u1: "unat (n * 10 + (of_char x - 48)) = 10 * unat n + (of_char x - 48)"
        by (simp add: u10 ud)
      have "parse_digits n (x # t) = parse_digits (n * 10 + (of_char x - 48)) t"
        using False \<open>\<not> cutoff \<le> n\<close> guard by (simp add: Let_def maxVal_greatest)
      also have "\<dots> = (if val_from (unat (n * 10 + (of_char x - 48))) t < 2 ^ 64
          then Inr (word_of_nat (val_from (unat (n * 10 + (of_char x - 48))) t))
          else Inl ErrRange)"
        using dt by (rule Cons.IH)
      finally show ?thesis by (simp add: u1)
    qed
  qed
qed

lemma decimal_digit: "n < 10 \<Longrightarrow> decimal n = [char_of (48 + n)]"
  by simp

lemma decimal_step: "0 < a \<Longrightarrow> d < 10 \<Longrightarrow> decimal (10 * a + d) = decimal a @ [char_of (48 + d)]"
  by (subst decimal.simps) simp

lemma val_from_snoc: "val_from a (ds @ [x]) = 10 * val_from a ds + (of_char x - 48)"
  by (induction ds arbitrary: a) simp_all

lemma digit_char:
  assumes "is_digit x"
  shows "char_of (48 + ((of_char x :: nat) - 48)) = x"
proof -
  have "48 + ((of_char x :: nat) - 48) = of_char x"
    using assms unfolding is_digit_iff by arith
  then show ?thesis by simp
qed

lemma decimal_val_from:
  "0 < a \<Longrightarrow> \<forall>x\<in>set ds. is_digit x \<Longrightarrow> decimal (val_from a ds) = decimal a @ ds"
proof (induction ds rule: rev_induct)
  case Nil
  show ?case by simp
next
  case (snoc x ds)
  then have dx: "is_digit x" and IH: "decimal (val_from a ds) = decimal a @ ds" by simp_all
  have pos: "0 < val_from a ds" using snoc.prems(1) val_from_ge [of a ds] by simp
  have d9: "(of_char x :: nat) - 48 < 10" using dx unfolding is_digit_iff by arith
  show ?case
    unfolding val_from_snoc using decimal_step [OF pos d9] IH digit_char [OF dx] by simp
qed

lemma char_of_48: "char_of (48 :: nat) = CHR ''0''"
proof -
  have "(of_char CHR ''0'' :: nat) = 48" by simp
  then show ?thesis using char_of_char [of "CHR ''0''", where ?'a = nat] by (simp only:)
qed

lemma decimal_dec_val: "canonical w \<Longrightarrow> decimal (dec_val w) = w"
proof -
  assume "canonical w"
  then consider "w = ''0''" | x t where "w = x # t" "CHR ''1'' \<le> x" "x \<le> CHR ''9''" "\<forall>y\<in>set t. is_digit y"
    unfolding canonical_def by blast
  then show ?thesis
  proof cases
    case 1
    then show ?thesis by (simp add: dec_val_def char_of_48)
  next
    case 2
    have x: "49 \<le> (of_char x :: nat)" "(of_char x :: nat) \<le> 57"
      using 2(2,3) by (simp_all add: less_eq_char_def)
    then have pos: "0 < (of_char x :: nat) - 48" and lt: "(of_char x :: nat) - 48 < 10" by simp_all
    have "is_digit x" using x by (simp add: is_digit_iff)
    have "decimal (val_from (of_char x - 48) t) = decimal (of_char x - 48) @ t"
      using pos 2(4) by (rule decimal_val_from)
    also have "decimal ((of_char x :: nat) - 48) = [x]"
      using decimal_digit [OF lt] digit_char [OF \<open>is_digit x\<close>] by simp
    finally show ?thesis using 2(1) by (simp add: dec_val_def)
  qed
qed

section \<open>Soundness of the matcher\<close>

declare run.simps(7) [simp del]

lemma run_Star_iff:
  "p \<in> set (run n (Star r) s c) \<longleftrightarrow>
     p = (s, c) \<or>
     (\<exists>q\<in>set (run n r s c). length (fst q) < length s \<and> p \<in> set (run n (Star r) (fst q) (snd q)))"
proof -
  have "set (run n (Star r) s c) =
      (\<Union>q\<in>{q \<in> set (run n r s c). length (fst q) < length s}.
          set (run n (Star r) (fst q) (snd q))) \<union> {(s, c)}"
    by (subst run.simps(7)) simp
  then show ?thesis by blast
qed

lemma run_Cat_iff:
  "q \<in> set (run n (Cat r1 r2) s c) \<longleftrightarrow> (\<exists>p\<in>set (run n r1 s c). q \<in> set (run n r2 (fst p) (snd p)))"
  by auto

lemma run_sound:
  "p \<in> set (run n r s c) \<Longrightarrow> \<exists>w. s = w @ fst p \<and> matches r w"
proof (induction n r s c arbitrary: p rule: run.induct)
  case (1 n s c)
  then have "s = [] @ fst p" by (simp split: if_splits)
  then show ?case using m_Begin by blast
next
  case (2 n s c)
  then have "s = [] @ fst p" by (simp split: if_splits)
  then show ?case using m_End by blast
next
  case (3 n a s c)
  then have "s = [a] @ fst p" by (cases s) (auto split: if_splits)
  moreover have "matches (Lit a) [a]" by (rule m_Lit)
  ultimately show ?case by blast
next
  case (4 n rs s c)
  then obtain x where x: "s = [x] @ fst p" "in_class x rs"
    by (cases s) (auto split: if_splits)
  have "matches (Cls rs) [x]" using x(2) by (rule m_Cls)
  with x(1) show ?case by blast
next
  case (5 n r1 r2 s c)
  from "5.prems" obtain q where q: "q \<in> set (run n r1 s c)"
    and p: "p \<in> set (run n r2 (fst q) (snd q))"
    by auto
  from "5.IH"(1) [OF q] obtain u where u: "s = u @ fst q" "matches r1 u" by blast
  from "5.IH"(2) [OF q p] obtain v where v: "fst q = v @ fst p" "matches r2 v" by blast
  have "s = (u @ v) @ fst p" using u(1) v(1) by simp
  moreover have "matches (Cat r1 r2) (u @ v)" using u(2) v(2) by (rule m_Cat)
  ultimately show ?case by blast
next
  case (6 n r1 r2 s c)
  from "6.prems" consider "p \<in> set (run n r1 s c)" | "p \<in> set (run n r2 s c)" by auto
  then show ?case
  proof cases
    case 1
    from "6.IH"(1) [OF 1] obtain w where w: "s = w @ fst p" "matches r1 w" by blast
    have "matches (Alt r1 r2) w" using w(2) by (rule m_Alt1)
    with w(1) show ?thesis by blast
  next
    case 2
    from "6.IH"(2) [OF 2] obtain w where w: "s = w @ fst p" "matches r2 w" by blast
    have "matches (Alt r1 r2) w" using w(2) by (rule m_Alt2)
    with w(1) show ?thesis by blast
  qed
next
  case (7 n r s c)
  from "7.prems" consider "p = (s, c)"
    | q where "q \<in> set (run n r s c)" "length (fst q) < length s"
        "p \<in> set (run n (Star r) (fst q) (snd q))"
    using run_Star_iff [of p n r s c] by blast
  then show ?case
  proof cases
    case 1
    then have "s = [] @ fst p" by simp
    moreover have "matches (Star r) []" by (rule m_Star0)
    ultimately show ?thesis by blast
  next
    case 2
    have qf: "q \<in> set (filter (\<lambda>p. length (fst p) < length s) (run n r s c))"
      using 2(1,2) by simp
    from "7.IH"(1) [OF 2(1)] obtain u where u: "s = u @ fst q" "matches r u" by blast
    from "7.IH"(2) [OF qf 2(3)] obtain v where v: "fst q = v @ fst p" "matches (Star r) v"
      by blast
    have "s = (u @ v) @ fst p" using u(1) v(1) by simp
    moreover have "matches (Star r) (u @ v)" using u(2) v(2) by (rule m_Star)
    ultimately show ?thesis by blast
  qed
next
  case (8 n r s c)
  from "8.prems" consider "p \<in> set (run n r s c)" | "p = (s, c)" by auto
  then show ?case
  proof cases
    case 1
    from "8.IH" [OF 1] obtain w where w: "s = w @ fst p" "matches r w" by blast
    have "matches (Quest r) w" using w(2) by (rule m_Quest)
    with w(1) show ?thesis by blast
  next
    case 2
    then have "s = [] @ fst p" by simp
    moreover have "matches (Quest r) []" by (rule m_Quest0)
    ultimately show ?thesis by blast
  qed
next
  case (9 n i r s c)
  from "9.prems" obtain q where q: "q \<in> set (run n r s c)" and fq: "fst p = fst q" by auto
  from "9.IH" [OF q] obtain w where w: "s = w @ fst q" "matches r w" by blast
  have "matches (Cap i r) w" using w(2) by (rule m_Cap)
  with w(1) fq show ?case by auto
qed

lemma run_caps_free:
  "p \<in> set (run n r s c) \<Longrightarrow> NumSubexp r = 0 \<Longrightarrow> snd p = c"
proof (induction n r s c arbitrary: p rule: run.induct)
  case (5 n r1 r2 s c)
  from "5.prems" obtain q where q: "q \<in> set (run n r1 s c)" and p: "p \<in> set (run n r2 (fst q) (snd q))"
    by auto
  have "snd q = c" using "5.IH"(1) [OF q] "5.prems"(2) by simp
  moreover have "snd p = snd q" using "5.IH"(2) [OF q p] "5.prems"(2) by simp
  ultimately show ?case by simp
next
  case (7 n r s c)
  from "7.prems" consider "p = (s, c)"
    | q where "q \<in> set (run n r s c)" "length (fst q) < length s" "p \<in> set (run n (Star r) (fst q) (snd q))"
    using run_Star_iff [of p n r s c] by blast
  then show ?case
  proof cases
    case 1
    then show ?thesis by simp
  next
    case 2
    have qf: "q \<in> set (filter (\<lambda>p. length (fst p) < length s) (run n r s c))" using 2 by simp
    have "snd q = c" using "7.IH"(1) [OF 2(1)] "7.prems"(2) by simp
    moreover have "snd p = snd q" using "7.IH"(2) [OF qf 2(3)] "7.prems"(2) by simp
    ultimately show ?thesis by simp
  qed
qed (auto split: if_splits list.splits)

lemma run_Cap:
  assumes "p \<in> set (run n (Cap i r) s c)" "NumSubexp r = 0"
  shows "\<exists>w. s = w @ fst p \<and> matches r w \<and> snd p = c[i := Some w]"
proof -
  from assms(1) obtain q where q: "q \<in> set (run n r s c)"
    and p: "p = (fst q, (snd q)[i := Some (take (length s - length (fst q)) s)])"
    by auto
  from run_sound [OF q] obtain w where w: "s = w @ fst q" "matches r w" by blast
  have "snd q = c" using run_caps_free [OF q assms(2)] .
  moreover have "take (length s - length (fst q)) s = w" using w(1) by simp
  ultimately show ?thesis using p w by auto
qed

section \<open>What the pattern matches\<close>

inductive_cases matches_LitE: "matches (Lit a) w"
inductive_cases matches_ClsE: "matches (Cls rs) w"
inductive_cases matches_CatE: "matches (Cat r1 r2) w"
inductive_cases matches_AltE: "matches (Alt r1 r2) w"

lemma digit_class: "in_class x [(CHR ''0'', CHR ''9'')] \<longleftrightarrow> is_digit x"
  by (simp add: in_class_def is_digit_def)

lemma matches_Star_Cls:
  "matches r w \<Longrightarrow> r = Star (Cls rs) \<Longrightarrow> \<forall>y\<in>set w. in_class y rs"
proof (induction rule: matches.induct)
  case (m_Star r u v)
  then have "matches (Cls rs) u" by simp
  then obtain x where "u = [x]" "in_class x rs" by (rule matches_ClsE)
  then show ?case using m_Star by simp
qed simp_all

lemma matches_Star_digit: "matches (Star digit) w \<Longrightarrow> \<forall>y\<in>set w. is_digit y"
  using matches_Star_Cls [of "Star digit" w "[(CHR ''0'', CHR ''9'')]"]
  by (simp add: digit_def digit_class)

lemma matches_numeric: "matches numeric w \<Longrightarrow> canonical w"
  unfolding numeric_def
proof (erule matches_AltE)
  assume "matches (Lit CHR ''0'') w"
  then show "canonical w" by (auto elim: matches_LitE simp: canonical_def)
next
  assume "matches (Cat (Cls [(CHR ''1'', CHR ''9'')]) (Star digit)) w"
  then obtain u v where w: "w = u @ v" and u: "matches (Cls [(CHR ''1'', CHR ''9'')]) u"
    and v: "matches (Star digit) v"
    by (rule matches_CatE)
  from u obtain x where x: "u = [x]" "in_class x [(CHR ''1'', CHR ''9'')]" by (rule matches_ClsE)
  have "\<forall>y\<in>set v. is_digit y" using v by (rule matches_Star_digit)
  then show "canonical w" using w x by (simp add: canonical_def in_class_def)
qed

lemma canonical_digits: "canonical w \<Longrightarrow> w \<noteq> [] \<and> (\<forall>y\<in>set w. is_digit y)"
  unfolding canonical_def by (auto simp: is_digit_def less_eq_char_def)

lemma matches_pre_ident_nonempty: "matches pre_ident w \<Longrightarrow> w \<noteq> []"
  unfolding pre_ident_def
  by (auto elim!: matches_AltE matches_CatE matches_LitE matches_ClsE)

lemma matches_pre_release_nonempty: "matches pre_release w \<Longrightarrow> w \<noteq> []"
  unfolding pre_release_def
  by (auto elim!: matches_CatE dest: matches_pre_ident_nonempty)

lemma matches_build_meta_nonempty: "matches build_meta w \<Longrightarrow> w \<noteq> []"
  unfolding build_meta_def Plus_def idchar_def
  by (auto elim!: matches_CatE matches_ClsE)

lemma run_BeginText: "p \<in> set (run n BeginText s c) \<Longrightarrow> p = (s, c) \<and> length s = n"
  by (simp split: if_splits)

lemma run_EndText: "p \<in> set (run n EndText s c) \<Longrightarrow> p = ([], c) \<and> s = []"
  by (simp split: if_splits)

lemma run_Lit: "p \<in> set (run n (Lit a) s c) \<Longrightarrow> s = a # fst p \<and> snd p = c"
  by (cases s) (auto split: if_splits)

lemma run_opt_group:
  assumes "p \<in> set (run n (Quest (Cat (Lit a) (Cap i r))) s c)" "NumSubexp r = 0"
  shows "\<exists>g. s = (case g of None \<Rightarrow> [] | Some x \<Rightarrow> a # x) @ fst p \<and>
              snd p = (case g of None \<Rightarrow> c | Some x \<Rightarrow> c[i := Some x]) \<and>
              (\<forall>x. g = Some x \<longrightarrow> matches r x)"
proof -
  from assms(1) consider "p = (s, c)" | "p \<in> set (run n (Cat (Lit a) (Cap i r)) s c)"
    by auto
  then show ?thesis
  proof cases
    case 1
    then have "s = (case None of None \<Rightarrow> [] | Some x \<Rightarrow> a # x) @ fst p \<and>
              snd p = (case None of None \<Rightarrow> c | Some x \<Rightarrow> c[i := Some x]) \<and>
              (\<forall>x. None = Some x \<longrightarrow> matches r x)" by simp
    then show ?thesis by (rule exI)
  next
    case 2
    then obtain q where q: "q \<in> set (run n (Lit a) s c)"
      and p: "p \<in> set (run n (Cap i r) (fst q) (snd q))"
      unfolding run_Cat_iff by blast
    from run_Lit [OF q] have q': "s = a # fst q" "snd q = c" by simp_all
    from run_Cap [OF p assms(2)] obtain w where w: "fst q = w @ fst p" "matches r w"
      "snd p = (snd q)[i := Some w]" by blast
    have "s = (case Some w of None \<Rightarrow> [] | Some x \<Rightarrow> a # x) @ fst p \<and>
              snd p = (case Some w of None \<Rightarrow> c | Some x \<Rightarrow> c[i := Some x]) \<and>
              (\<forall>x. Some w = Some x \<longrightarrow> matches r x)"
      using q' w by simp
    then show ?thesis by (rule exI)
  qed
qed

lemma NumSubexp_numeric: "NumSubexp numeric = 0"
  by (simp add: numeric_def digit_def)

lemma NumSubexp_pre_release: "NumSubexp pre_release = 0"
  by (simp add: pre_release_def pre_ident_def digit_def idchar_def)

lemma NumSubexp_build_meta: "NumSubexp build_meta = 0"
  by (simp add: build_meta_def Plus_def idchar_def)

lemma NumSubexp_re: "NumSubexp re = 5"
  by (simp add: re_def NumSubexp_numeric NumSubexp_pre_release NumSubexp_build_meta)

lemma run_re:
  assumes "p \<in> set (run n re s c)"
  shows "\<exists>w1 w2 w3 pre bld.
     fst p = [] \<and> length s = n \<and>
     s = w1 @ ''.'' @ w2 @ ''.'' @ w3 @ opt_part CHR ''-'' pre @ opt_part CHR ''+'' bld \<and>
     matches numeric w1 \<and> matches numeric w2 \<and> matches numeric w3 \<and>
     (\<forall>x. pre = Some x \<longrightarrow> matches pre_release x) \<and>
     (\<forall>y. bld = Some y \<longrightarrow> matches build_meta y) \<and>
     snd p = (case bld of None \<Rightarrow> (\<lambda>c. c) | Some y \<Rightarrow> (\<lambda>c. c[5 := Some y]))
             ((case pre of None \<Rightarrow> (\<lambda>c. c) | Some x \<Rightarrow> (\<lambda>c. c[4 := Some x]))
              (c[1 := Some w1, 2 := Some w2, 3 := Some w3]))"
proof -
  from assms obtain q0 q1 q2 q3 q4 q5 q6 q7 where
        q0: "q0 \<in> set (run n BeginText s c)"
    and q1: "q1 \<in> set (run n (Cap 1 numeric) (fst q0) (snd q0))"
    and q2: "q2 \<in> set (run n (Lit CHR ''.'') (fst q1) (snd q1))"
    and q3: "q3 \<in> set (run n (Cap 2 numeric) (fst q2) (snd q2))"
    and q4: "q4 \<in> set (run n (Lit CHR ''.'') (fst q3) (snd q3))"
    and q5: "q5 \<in> set (run n (Cap 3 numeric) (fst q4) (snd q4))"
    and q6: "q6 \<in> set (run n (Quest (Cat (Lit CHR ''-'') (Cap 4 pre_release))) (fst q5) (snd q5))"
    and q7: "q7 \<in> set (run n (Quest (Cat (Lit CHR ''+'') (Cap 5 build_meta))) (fst q6) (snd q6))"
    and p: "p \<in> set (run n EndText (fst q7) (snd q7))"
    unfolding re_def run_Cat_iff by blast
  from run_BeginText [OF q0] have 0: "q0 = (s, c)" "length s = n" by simp_all
  from run_Cap [OF q1 NumSubexp_numeric] obtain w1
    where 1: "fst q0 = w1 @ fst q1" "matches numeric w1" "snd q1 = (snd q0)[1 := Some w1]" by blast
  from run_Lit [OF q2] have 2: "fst q1 = CHR ''.'' # fst q2" "snd q2 = snd q1" by simp_all
  from run_Cap [OF q3 NumSubexp_numeric] obtain w2
    where 3: "fst q2 = w2 @ fst q3" "matches numeric w2" "snd q3 = (snd q2)[2 := Some w2]" by blast
  from run_Lit [OF q4] have 4: "fst q3 = CHR ''.'' # fst q4" "snd q4 = snd q3" by simp_all
  from run_Cap [OF q5 NumSubexp_numeric] obtain w3
    where 5: "fst q4 = w3 @ fst q5" "matches numeric w3" "snd q5 = (snd q4)[3 := Some w3]" by blast
  from run_opt_group [OF q6 NumSubexp_pre_release] obtain pre
    where 6: "fst q5 = opt_part CHR ''-'' pre @ fst q6"
      "snd q6 = (case pre of None \<Rightarrow> snd q5 | Some x \<Rightarrow> (snd q5)[4 := Some x])"
      "\<forall>x. pre = Some x \<longrightarrow> matches pre_release x"
    unfolding opt_part_def by blast
  from run_opt_group [OF q7 NumSubexp_build_meta] obtain bld
    where 7: "fst q6 = opt_part CHR ''+'' bld @ fst q7"
      "snd q7 = (case bld of None \<Rightarrow> snd q6 | Some x \<Rightarrow> (snd q6)[5 := Some x])"
      "\<forall>x. bld = Some x \<longrightarrow> matches build_meta x"
    unfolding opt_part_def by blast
  from run_EndText [OF p] have 8: "p = ([], snd q7)" "fst q7 = []" by simp_all
  have s: "s = w1 @ ''.'' @ w2 @ ''.'' @ w3 @ opt_part CHR ''-'' pre @ opt_part CHR ''+'' bld"
    using 0(1) 1(1) 2(1) 3(1) 4(1) 5(1) 6(1) 7(1) 8(2) by simp
  have c: "snd p = (case bld of None \<Rightarrow> (\<lambda>c. c) | Some y \<Rightarrow> (\<lambda>c. c[5 := Some y]))
             ((case pre of None \<Rightarrow> (\<lambda>c. c) | Some x \<Rightarrow> (\<lambda>c. c[4 := Some x]))
              (c[1 := Some w1, 2 := Some w2, 3 := Some w3]))"
    using 0(1) 1(3) 2(2) 3(3) 4(2) 5(3) 6(2) 7(2) 8(1) by (simp split: option.splits)
  show ?thesis
    using 8(1) 0(2) s 1(2) 3(2) 5(2) 6(3) 7(3) c by (intro exI conjI) simp_all
qed

lemma find_from_Nil:
  "find_from n r [] c = Some cs \<Longrightarrow> \<exists>p ps. run n r [] c = p # ps \<and> snd p = cs"
  by (cases "run n r [] c") simp_all

lemma find_from_Some:
  "find_from n r s c = Some cs \<Longrightarrow>
   \<exists>k p. k \<le> length s \<and> p \<in> set (run n r (drop k s) c) \<and> snd p = cs"
proof (induction s)
  case Nil
  from find_from_Nil [OF Nil] obtain p ps where "run n r [] c = p # ps" "snd p = cs"
    by blast
  then have "0 \<le> length ([] :: string) \<and> p \<in> set (run n r (drop 0 []) c) \<and> snd p = cs"
    by simp
  then show ?case by (intro exI)
next
  case (Cons x t)
  show ?case
  proof (cases "run n r (x # t) c")
    case Nil
    then have "find_from n r t c = Some cs" using Cons.prems by simp
    from Cons.IH [OF this] obtain k p
      where "k \<le> length t" "p \<in> set (run n r (drop k t) c)" "snd p = cs"
      by blast
    then have "Suc k \<le> length (x # t) \<and> p \<in> set (run n r (drop (Suc k) (x # t)) c) \<and> snd p = cs"
      by simp
    then show ?thesis by (intro exI)
  next
    case (Cons p ps)
    then have "snd p = cs" using Cons.prems by simp
    then have "0 \<le> length (x # t) \<and> p \<in> set (run n r (drop 0 (x # t)) c) \<and> snd p = cs"
      using Cons by simp
    then show ?thesis by (intro exI)
  qed
qed

lemma find_caps_re:
  assumes "find_caps re s = Some cs"
  shows "\<exists>w1 w2 w3 pre bld.
     cs = [Some s, Some w1, Some w2, Some w3, pre, bld] \<and>
     s = w1 @ ''.'' @ w2 @ ''.'' @ w3 @ opt_part CHR ''-'' pre @ opt_part CHR ''+'' bld \<and>
     matches numeric w1 \<and> matches numeric w2 \<and> matches numeric w3 \<and>
     (\<forall>x. pre = Some x \<longrightarrow> matches pre_release x) \<and>
     (\<forall>y. bld = Some y \<longrightarrow> matches build_meta y)"
proof -
  let ?c0 = "[None, None, None, None, None, None] :: caps"
  have c0: "replicate (Suc (NumSubexp re)) None = ?c0"
    by (simp add: NumSubexp_re numeral_eq_Suc)
  from assms have "find_from (length s) (Cap 0 re) s ?c0 = Some cs"
    unfolding find_caps_def c0 .
  from find_from_Some [OF this] obtain k p
    where p: "p \<in> set (run (length s) (Cap 0 re) (drop k s) ?c0)" and cs: "snd p = cs"
    by blast
  define t where "t = drop k s"
  note p = p [folded t_def]
  from p obtain q where q: "q \<in> set (run (length s) re t ?c0)"
    and pq: "p = (fst q, (snd q)[0 := Some (take (length t - length (fst q)) t)])"
    by auto
  from run_re [OF q] obtain w1 w2 w3 pre bld where r:
    "fst q = []" "length t = length s"
    "t = w1 @ ''.'' @ w2 @ ''.'' @ w3 @ opt_part CHR ''-'' pre @ opt_part CHR ''+'' bld"
    "matches numeric w1" "matches numeric w2" "matches numeric w3"
    "\<forall>x. pre = Some x \<longrightarrow> matches pre_release x"
    "\<forall>y. bld = Some y \<longrightarrow> matches build_meta y"
    "snd q = (case bld of None \<Rightarrow> (\<lambda>c. c) | Some y \<Rightarrow> (\<lambda>c. c[5 := Some y]))
             ((case pre of None \<Rightarrow> (\<lambda>c. c) | Some x \<Rightarrow> (\<lambda>c. c[4 := Some x]))
              (?c0[1 := Some w1, 2 := Some w2, 3 := Some w3]))"
    by blast
  have "length s - k = length s" using r(2) unfolding t_def by simp
  then have "k = 0 \<or> length s = 0" by arith
  then have ts: "t = s" unfolding t_def by auto
  have "snd q = [None, Some w1, Some w2, Some w3, pre, bld]"
    unfolding r(9) by (simp split: option.splits)
  then have "cs = [Some s, Some w1, Some w2, Some w3, pre, bld]"
    using cs pq r(1) ts by simp
  then show ?thesis using r(3-8) ts by blast
qed

lemma MatchString_re_shape:
  assumes "MatchString re s"
  shows "\<exists>w1 w2 w3 pre bld.
     FindStringSubmatch re s = [s, w1, w2, w3, pre, bld] \<and>
     s = w1 @ ''.'' @ w2 @ ''.'' @ w3 @ (if pre = [] then [] else CHR ''-'' # pre)
           @ (if bld = [] then [] else CHR ''+'' # bld) \<and>
     canonical w1 \<and> canonical w2 \<and> canonical w3 \<and>
     (pre = [] \<or> matches pre_release pre) \<and> (bld = [] \<or> matches build_meta bld)"
proof -
  from assms obtain cs where cs: "find_caps re s = Some cs"
    unfolding MatchString_def by blast
  from find_caps_re [OF cs] obtain w1 w2 w3 pre bld where r:
    "cs = [Some s, Some w1, Some w2, Some w3, pre, bld]"
    "s = w1 @ ''.'' @ w2 @ ''.'' @ w3 @ opt_part CHR ''-'' pre @ opt_part CHR ''+'' bld"
    "matches numeric w1" "matches numeric w2" "matches numeric w3"
    "\<forall>x. pre = Some x \<longrightarrow> matches pre_release x"
    "\<forall>y. bld = Some y \<longrightarrow> matches build_meta y"
    by blast
  let ?pre = "case pre of None \<Rightarrow> [] | Some x \<Rightarrow> x"
  let ?bld = "case bld of None \<Rightarrow> [] | Some x \<Rightarrow> x"
  have pre: "opt_part CHR ''-'' pre = (if ?pre = [] then [] else CHR ''-'' # ?pre)"
    using r(6) matches_pre_release_nonempty by (cases pre) (auto simp: opt_part_def)
  have bld: "opt_part CHR ''+'' bld = (if ?bld = [] then [] else CHR ''+'' # ?bld)"
    using r(7) matches_build_meta_nonempty by (cases bld) (auto simp: opt_part_def)
  have "FindStringSubmatch re s = [s, w1, w2, w3, ?pre, ?bld]"
    unfolding FindStringSubmatch_def cs r(1) by simp
  moreover have "s = w1 @ ''.'' @ w2 @ ''.'' @ w3 @ (if ?pre = [] then [] else CHR ''-'' # ?pre)
           @ (if ?bld = [] then [] else CHR ''+'' # ?bld)"
    using r(2) unfolding pre bld .
  moreover have "canonical w1" "canonical w2" "canonical w3"
    using r(3-5) by (simp_all add: matches_numeric)
  moreover have "?pre = [] \<or> matches pre_release ?pre"
    using r(6) by (cases pre) simp_all
  moreover have "?bld = [] \<or> matches build_meta ?bld"
    using r(7) by (cases bld) simp_all
  ultimately show ?thesis by blast
qed

lemma ParseUint_canonical:
  assumes "canonical w"
  shows "ParseUint w = (if dec_val w < 2 ^ 64 then Inr (word_of_nat (dec_val w)) else Inl ErrRange)"
proof -
  from canonical_digits [OF assms] have "w \<noteq> []" "\<forall>y\<in>set w. is_digit y" by simp_all
  then show ?thesis
    using parse_digits_spec [of w 0] by (simp add: ParseUint_def dec_val_def)
qed

lemma MatchString_re_digit:
  assumes "MatchString re s"
  shows "\<exists>x t. s = x # t \<and> is_digit x"
proof -
  from MatchString_re_shape [OF assms] obtain w1 r where "s = w1 @ r" "canonical w1" by blast
  moreover from canonical_digits [OF this(2)] obtain x t where "w1 = x # t" "is_digit x"
    by (cases w1) auto
  ultimately show ?thesis by simp
qed

lemma TrimPrefix_matched: "MatchString re s \<Longrightarrow> TrimPrefix s ''v'' = s"
  using MatchString_re_digit [of s] by (auto simp: TrimPrefix_def is_digit_def)

lemma TryParse_matched:
  assumes "input \<noteq> []" and "MatchString re (TrimPrefix input ''v'')"
  shows "\<exists>w1 w2 w3 pre bld.
     FindStringSubmatch re (TrimPrefix input ''v'') = [TrimPrefix input ''v'', w1, w2, w3, pre, bld] \<and>
     TrimPrefix input ''v'' =
       w1 @ ''.'' @ w2 @ ''.'' @ w3 @ (if pre = [] then [] else CHR ''-'' # pre)
          @ (if bld = [] then [] else CHR ''+'' # bld) \<and>
     canonical w1 \<and> canonical w2 \<and> canonical w3 \<and>
     TryParse input =
       (if 2 ^ 64 \<le> dec_val w1 then (zero_Version, Some (ErrNumeric w1 ErrRange))
        else if 2 ^ 64 \<le> dec_val w2 then (zero_Version, Some (ErrNumeric w2 ErrRange))
        else if 2 ^ 64 \<le> dec_val w3 then (zero_Version, Some (ErrNumeric w3 ErrRange))
        else (\<lparr>Major = word_of_nat (dec_val w1), Minor = word_of_nat (dec_val w2),
               Patch = word_of_nat (dec_val w3), PreRelease = pre, Build = bld\<rparr>, None))"
proof -
  from MatchString_re_shape [OF assms(2)] obtain w1 w2 w3 pre bld where r:
    "FindStringSubmatch re (TrimPrefix input ''v'') = [TrimPrefix input ''v'', w1, w2, w3, pre, bld]"
    "TrimPrefix input ''v'' =
       w1 @ ''.'' @ w2 @ ''.'' @ w3 @ (if pre = [] then [] else CHR ''-'' # pre)
          @ (if bld = [] then [] else CHR ''+'' # bld)"
    "canonical w1" "canonical w2" "canonical w3"
    by blast
  have "TryParse input =
       (if 2 ^ 64 \<le> dec_val w1 then (zero_Version, Some (ErrNumeric w1 ErrRange))
        else if 2 ^ 64 \<le> dec_val w2 then (zero_Version, Some (ErrNumeric w2 ErrRange))
        else if 2 ^ 64 \<le> dec_val w3 then (zero_Version, Some (ErrNumeric w3 ErrRange))
        else (\<lparr>Major = word_of_nat (dec_val w1), Minor = word_of_nat (dec_val w2),
               Patch = word_of_nat (dec_val w3), PreRelease = pre, Build = bld\<rparr>, None))"
    unfolding TryParse_def Let_def r(1)
    using assms r(3-5) by (simp add: ParseUint_canonical not_less)
  with r show ?thesis by blast
qed

lemma String_parsed:
  assumes "canonical w1" "canonical w2" "canonical w3"
    and "dec_val w1 < 2 ^ 64" "dec_val w2 < 2 ^ 64" "dec_val w3 < 2 ^ 64"
  shows "String \<lparr>Major = word_of_nat (dec_val w1), Minor = word_of_nat (dec_val w2),
               Patch = word_of_nat (dec_val w3), PreRelease = pre, Build = bld\<rparr> =
         w1 @ ''.'' @ w2 @ ''.'' @ w3 @ (if pre = [] then [] else CHR ''-'' # pre)
          @ (if bld = [] then [] else CHR ''+'' # bld)"
proof -
  have u: "unat (word_of_nat (dec_val w1) :: 64 word) = dec_val w1"
    "unat (word_of_nat (dec_val w2) :: 64 word) = dec_val w2"
    "unat (word_of_nat (dec_val w3) :: 64 word) = dec_val w3"
    using assms(4-6) by (simp_all add: unat_of_nat)
  show ?thesis
    unfolding String_def Let_def using assms(1-3) by (simp add: u decimal_dec_val del: decimal.simps)
qed

section \<open>The search accepts exactly the language of the pattern\<close>

lemma run_complete:
  "matches r w \<Longrightarrow> anchor_free r \<Longrightarrow> \<exists>c'. (t, c') \<in> set (run n r (w @ t) c)"
proof (induction arbitrary: t c rule: matches.induct)
  case m_Begin
  then show ?case by simp
next
  case m_End
  then show ?case by simp
next
  case (m_Lit a)
  show ?case by simp
next
  case (m_Cls x rs)
  then show ?case by simp
next
  case (m_Cat r1 u r2 v)
  from m_Cat.prems have a: "anchor_free r1" "anchor_free r2" by simp_all
  from m_Cat.IH(1) [OF a(1), of "v @ t" c] obtain c1
    where 1: "(v @ t, c1) \<in> set (run n r1 (u @ v @ t) c)" by blast
  from m_Cat.IH(2) [OF a(2), of t c1] obtain c2
    where 2: "(t, c2) \<in> set (run n r2 (v @ t) c1)" by blast
  have "(t, c2) \<in> set (run n (Cat r1 r2) ((u @ v) @ t) c)"
    unfolding run_Cat_iff using 1 2 by force
  then show ?case by blast
next
  case (m_Alt1 r1 u r2)
  then obtain c1 where "(t, c1) \<in> set (run n r1 (u @ t) c)" by force
  then have "(t, c1) \<in> set (run n (Alt r1 r2) (u @ t) c)" by simp
  then show ?case by blast
next
  case (m_Alt2 r2 u r1)
  then obtain c1 where "(t, c1) \<in> set (run n r2 (u @ t) c)" by force
  then have "(t, c1) \<in> set (run n (Alt r1 r2) (u @ t) c)" by simp
  then show ?case by blast
next
  case (m_Star0 r)
  have "(t, c) \<in> set (run n (Star r) ([] @ t) c)"
    using run_Star_iff [of "(t, c)" n r t c] by simp
  then show ?case by blast
next
  case (m_Star r u v)
  from m_Star.prems have a: "anchor_free r" "anchor_free (Star r)" by simp_all
  show ?case
  proof (cases "u = []")
    case True
    then show ?thesis using m_Star.IH(2) [OF a(2), of t c] by simp
  next
    case False
    from m_Star.IH(1) [OF a(1), of "v @ t" c] obtain c1
      where 1: "(v @ t, c1) \<in> set (run n r (u @ v @ t) c)" by blast
    from m_Star.IH(2) [OF a(2), of t c1] obtain c2
      where 2: "(t, c2) \<in> set (run n (Star r) (v @ t) c1)" by blast
    have "length (fst (v @ t, c1)) < length (u @ v @ t)" using False by simp
    with 1 2 have "\<exists>q\<in>set (run n r (u @ v @ t) c). length (fst q) < length (u @ v @ t) \<and>
        (t, c2) \<in> set (run n (Star r) (fst q) (snd q))"
      by force
    then have "(t, c2) \<in> set (run n (Star r) ((u @ v) @ t) c)"
      using run_Star_iff [of "(t, c2)" n r "u @ v @ t" c] by simp
    then show ?thesis by blast
  qed
next
  case (m_Quest0 r)
  have "(t, c) \<in> set (run n (Quest r) ([] @ t) c)" by simp
  then show ?case by blast
next
  case (m_Quest r u)
  then obtain c1 where "(t, c1) \<in> set (run n r (u @ t) c)" by force
  then have "(t, c1) \<in> set (run n (Quest r) (u @ t) c)" by simp
  then show ?case by blast
next
  case (m_Cap r u i)
  then obtain c1 where "(t, c1) \<in> set (run n r (u @ t) c)" by force
  then have "(t, c1[i := Some (take (length (u @ t) - length t) (u @ t))])
      \<in> set (run n (Cap i r) (u @ t) c)" by force
  then show ?case by blast
qed

inductive_cases matches_BeginE: "matches BeginText w"
inductive_cases matches_EndE: "matches EndText w"

lemma run_CatI:
  "p \<in> set (run n r1 s c) \<Longrightarrow> q \<in> set (run n r2 (fst p) (snd p)) \<Longrightarrow>
   q \<in> set (run n (Cat r1 r2) s c)"
  unfolding run_Cat_iff by blast

lemma run_complete_End:
  assumes "matches (Cat r EndText) w" and "anchor_free r"
  shows "\<exists>c'. ([], c') \<in> set (run n (Cat r EndText) w c)"
proof -
  from assms(1) obtain u e where w: "w = u @ e" and u: "matches r u" and e: "matches EndText e"
    by (rule matches_CatE)
  from e have "e = []" by (rule matches_EndE)
  from run_complete [OF u assms(2), of "[]" n c] obtain c1
    where "([], c1) \<in> set (run n r (u @ []) c)" by blast
  then have "([], c1) \<in> set (run n (Cat r EndText) w c)"
    unfolding run_Cat_iff using w \<open>e = []\<close> by force
  then show ?thesis by blast
qed

lemma run_complete_Cat:
  assumes "matches (Cat r R) w" and "anchor_free r"
    and "\<And>v c. matches R v \<Longrightarrow> \<exists>c'. ([], c') \<in> set (run n R v c)"
  shows "\<exists>c'. ([], c') \<in> set (run n (Cat r R) w c)"
proof -
  from assms(1) obtain u v where w: "w = u @ v" and u: "matches r u" and v: "matches R v"
    by (rule matches_CatE)
  from run_complete [OF u assms(2), of v n c] obtain c1
    where 1: "(v, c1) \<in> set (run n r (u @ v) c)" by blast
  from assms(3) [OF v, of c1] obtain c2 where 2: "([], c2) \<in> set (run n R v c1)" by blast
  have "([], c2) \<in> set (run n (Cat r R) w c)"
    unfolding run_Cat_iff using w 1 2 by force
  then show ?thesis by blast
qed

lemma anchor_free_parts:
  "anchor_free (Cap i numeric)" "anchor_free (Lit a)"
  "anchor_free (Quest (Cat (Lit a) (Cap i pre_release)))"
  "anchor_free (Quest (Cat (Lit a) (Cap i build_meta)))"
  by (simp_all add: numeric_def digit_def pre_release_def pre_ident_def idchar_def
        build_meta_def Plus_def)

lemma re_tail: "re = Cat BeginText tail1"
  by (simp add: re_def tail1_def tail3_def tail5_def tail6_def tail7_def)

lemma tail7_complete: "matches tail7 v \<Longrightarrow> \<exists>c'. ([], c') \<in> set (run n tail7 v c)"
  unfolding tail7_def by (erule run_complete_End) (rule anchor_free_parts)

lemma tail6_complete: "matches tail6 v \<Longrightarrow> \<exists>c'. ([], c') \<in> set (run n tail6 v c)"
  unfolding tail6_def
  by (erule run_complete_Cat, rule anchor_free_parts, erule tail7_complete)

lemma tail5_complete: "matches tail5 v \<Longrightarrow> \<exists>c'. ([], c') \<in> set (run n tail5 v c)"
  unfolding tail5_def
  by (erule run_complete_Cat, rule anchor_free_parts, erule tail6_complete)

lemma tail3_complete: "matches tail3 v \<Longrightarrow> \<exists>c'. ([], c') \<in> set (run n tail3 v c)"
  unfolding tail3_def
  by (erule run_complete_Cat, rule anchor_free_parts, erule run_complete_Cat,
      rule anchor_free_parts, erule tail5_complete)

lemma tail1_complete: "matches tail1 v \<Longrightarrow> \<exists>c'. ([], c') \<in> set (run n tail1 v c)"
  unfolding tail1_def
  by (erule run_complete_Cat, rule anchor_free_parts, erule run_complete_Cat,
      rule anchor_free_parts, erule tail3_complete)

lemma run_re_complete:
  assumes "matches re s"
  shows "\<exists>c'. ([], c') \<in> set (run (length s) re s c)"
proof -
  from assms obtain e w where s: "s = e @ w" and e: "matches BeginText e" and w: "matches tail1 w"
    unfolding re_tail by (rule matches_CatE)
  from e have "e = []" by (rule matches_BeginE)
  then have sw: "w = s" using s by simp
  from tail1_complete [OF w, of "length s" c] obtain c'
    where "([], c') \<in> set (run (length s) tail1 s c)"
    unfolding sw by blast
  then have "([], c') \<in> set (run (length s) tail1 (fst (s, c)) (snd (s, c)))" by simp
  moreover have "(s, c) \<in> set (run (length s) BeginText s c)" by simp
  ultimately have "([], c') \<in> set (run (length s) (Cat BeginText tail1) s c)"
    by (rule run_CatI [rotated])
  then show ?thesis unfolding re_tail by (rule exI)
qed

lemma find_from_first:
  "run n r s c \<noteq> [] \<Longrightarrow> find_from n r s c \<noteq> None"
  by (cases s; cases "run n r s c") simp_all

lemma matches_re_MatchString:
  assumes "matches re s"
  shows "MatchString re s"
proof -
  from run_re_complete [OF assms] obtain c'
    where "([], c') \<in> set (run (length s) re s (replicate (Suc (NumSubexp re)) None))" by blast
  then have "run (length s) (Cap 0 re) s (replicate (Suc (NumSubexp re)) None) \<noteq> []"
    by auto
  then show ?thesis
    unfolding MatchString_def find_caps_def by (rule find_from_first)
qed

lemma MatchString_re_matches:
  assumes "MatchString re s"
  shows "matches re s"
proof -
  from assms obtain cs
    where "find_from (length s) (Cap 0 re) s (replicate (Suc (NumSubexp re)) None) = Some cs"
    unfolding MatchString_def find_caps_def by blast
  from find_from_Some [OF this] obtain k p
    where p: "p \<in> set (run (length s) (Cap 0 re) (drop k s) (replicate (Suc (NumSubexp re)) None))"
    by blast
  then obtain q where q: "q \<in> set (run (length s) re (drop k s) (replicate (Suc (NumSubexp re)) None))"
    by auto
  from run_re [OF q] have e: "fst q = []" and l: "length (drop k s) = length s" by blast+
  from l have "length s - k = length s" by simp
  then have "k = 0 \<or> length s = 0" by arith
  then have d: "drop k s = s" by auto
  from run_sound [OF q] obtain w where "drop k s = w @ fst q" "matches re w" by blast
  then show ?thesis using e d by simp
qed

lemma MatchString_re_iff: "MatchString re s \<longleftrightarrow> matches re s"
  using MatchString_re_matches matches_re_MatchString by blast

section \<open>No empty segment\<close>

lemma dotdot_Cons: "dotdot (x # v) = (v \<noteq> [] \<and> (x = CHR ''.'' \<and> hd v = CHR ''.'' \<or> dotdot v))"
  by (cases v) simp_all

lemma dotdot_append:
  "dotdot (u @ v) \<longleftrightarrow>
     dotdot u \<or> dotdot v \<or> (u \<noteq> [] \<and> v \<noteq> [] \<and> last u = CHR ''.'' \<and> hd v = CHR ''.'')"
proof (induction u)
  case Nil
  show ?case by simp
next
  case (Cons x u)
  show ?case
  proof (cases u)
    case Nil
    then show ?thesis by (auto simp: dotdot_Cons)
  next
    case (Cons y t)
    then show ?thesis using Cons.IH by (auto simp: dotdot_Cons)
  qed
qed

lemma dotdot_infix: "dotdot (a @ ''..'' @ b)"
  by (simp add: dotdot_append dotdot_Cons)

lemma no_dot_dotted: "w \<noteq> [] \<Longrightarrow> CHR ''.'' \<notin> set w \<Longrightarrow> dotted w"
proof (induction w)
  case Nil
  then show ?case by simp
next
  case (Cons x w)
  show ?case
  proof (cases w)
    case Nil
    then show ?thesis using Cons.prems by (simp add: dotted_def)
  next
    case (Cons y t)
    then have "dotted w" using Cons.IH Cons.prems by simp
    then show ?thesis using Cons.prems Cons by (auto simp: dotted_def dotdot_Cons)
  qed
qed

lemma dotted_append_sep: "dotted u \<Longrightarrow> dotted v \<Longrightarrow> dotted (u @ a # v)"
  by (auto simp: dotted_def dotdot_append dotdot_Cons)

lemma matches_dot_list:
  "matches r v \<Longrightarrow> r = Star (Cat (Lit CHR ''.'') X) \<Longrightarrow> (\<And>u. matches X u \<Longrightarrow> dotted u) \<Longrightarrow>
   v = [] \<or> (\<exists>t. v = CHR ''.'' # t \<and> dotted t)"
proof (induction rule: matches.induct)
  case (m_Star r u v)
  from m_Star.prems(1) m_Star.hyps(1) have "matches (Cat (Lit CHR ''.'') X) u" by simp
  then obtain a b where ab: "u = a @ b" "matches (Lit CHR ''.'') a" "matches X b"
    by (rule matches_CatE)
  from ab(2) have a: "a = ''.''" by (rule matches_LitE)
  have b: "dotted b" using ab(3) by (rule m_Star.prems(2))
  from m_Star.IH(2) [OF m_Star.prems(1) m_Star.prems(2)]
  consider "v = []" | t where "v = CHR ''.'' # t" "dotted t" by blast
  then show ?case
  proof cases
    case 1
    then show ?thesis using ab(1) a b by simp
  next
    case 2
    then have "u @ v = CHR ''.'' # (b @ CHR ''.'' # t)" using ab(1) a by simp
    moreover have "dotted (b @ CHR ''.'' # t)" using b 2(2) by (rule dotted_append_sep)
    ultimately show ?thesis by blast
  qed
qed simp_all

lemma matches_dotted_list:
  assumes "matches (Cat X (Star (Cat (Lit CHR ''.'') X))) w" and "\<And>u. matches X u \<Longrightarrow> dotted u"
  shows "dotted w"
proof -
  from assms(1) obtain u v where w: "w = u @ v" and u: "matches X u"
    and v: "matches (Star (Cat (Lit CHR ''.'') X)) v"
    by (rule matches_CatE)
  have du: "dotted u" using u by (rule assms(2))
  from matches_dot_list [OF v refl assms(2)]
  consider "v = []" | t where "v = CHR ''.'' # t" "dotted t" by blast
  then show ?thesis
  proof cases
    case 1
    then show ?thesis using w du by simp
  next
    case 2
    then show ?thesis using w dotted_append_sep [OF du 2(2)] by simp
  qed
qed

lemma class_no_dot:
  "in_class y [(CHR ''0'', CHR ''9''), (CHR ''a'', CHR ''z''), (CHR ''A'', CHR ''Z''),
               (CHR ''-'', CHR ''-'')] \<Longrightarrow> y \<noteq> CHR ''.''"
  "in_class y [(CHR ''a'', CHR ''z''), (CHR ''A'', CHR ''Z''), (CHR ''-'', CHR ''-'')] \<Longrightarrow> y \<noteq> CHR ''.''"
  "in_class y [(CHR ''0'', CHR ''9'')] \<Longrightarrow> y \<noteq> CHR ''.''"
  "in_class y [(CHR ''1'', CHR ''9'')] \<Longrightarrow> y \<noteq> CHR ''.''"
  by (auto simp: in_class_def)

lemma matches_Star_no_dot:
  assumes "matches (Star (Cls rs)) w" and "\<And>y. in_class y rs \<Longrightarrow> y \<noteq> CHR ''.''"
  shows "CHR ''.'' \<notin> set w"
  using matches_Star_Cls [OF assms(1) refl] assms(2) by blast

lemma matches_Star_digit_no_dot: "matches (Star digit) w \<Longrightarrow> CHR ''.'' \<notin> set w"
  unfolding digit_def by (erule matches_Star_no_dot, erule class_no_dot)

lemma matches_Star_idchar_no_dot: "matches (Star idchar) w \<Longrightarrow> CHR ''.'' \<notin> set w"
  unfolding idchar_def by (erule matches_Star_no_dot, erule class_no_dot)

lemma matches_Cls_no_dot:
  assumes "matches (Cls rs) w" and "\<And>y. in_class y rs \<Longrightarrow> y \<noteq> CHR ''.''"
  shows "CHR ''.'' \<notin> set w"
proof -
  from assms(1) obtain x where "w = [x]" "in_class x rs" by (rule matches_ClsE)
  then show ?thesis using assms(2) by auto
qed

lemma matches_pre_ident_dotted:
  assumes "matches pre_ident w"
  shows "dotted w"
proof -
  from assms consider
      (zero) "matches (Lit CHR ''0'') w"
    | (number) "matches (Cat (Cls [(CHR ''1'', CHR ''9'')]) (Star digit)) w"
    | (alnum) "matches (Cat (Star digit)
         (Cat (Cls [(CHR ''a'', CHR ''z''), (CHR ''A'', CHR ''Z''), (CHR ''-'', CHR ''-'')])
              (Star idchar))) w"
    unfolding pre_ident_def by (blast elim: matches_AltE)
  then have "CHR ''.'' \<notin> set w"
  proof cases
    case zero
    then have "w = ''0''" by (rule matches_LitE)
    then show ?thesis by simp
  next
    case number
    then obtain u v where w: "w = u @ v" and u: "matches (Cls [(CHR ''1'', CHR ''9'')]) u"
      and v: "matches (Star digit) v"
      by (rule matches_CatE)
    have "CHR ''.'' \<notin> set u" using u by (rule matches_Cls_no_dot) (erule class_no_dot)
    moreover have "CHR ''.'' \<notin> set v" using v by (rule matches_Star_digit_no_dot)
    ultimately show ?thesis using w by simp
  next
    case alnum
    then obtain u v where w: "w = u @ v" and u: "matches (Star digit) u"
      and v: "matches (Cat (Cls [(CHR ''a'', CHR ''z''), (CHR ''A'', CHR ''Z''), (CHR ''-'', CHR ''-'')])
              (Star idchar)) v"
      by (rule matches_CatE)
    from v obtain a b where v': "v = a @ b"
      and a: "matches (Cls [(CHR ''a'', CHR ''z''), (CHR ''A'', CHR ''Z''), (CHR ''-'', CHR ''-'')]) a"
      and b: "matches (Star idchar) b"
      by (rule matches_CatE)
    have "CHR ''.'' \<notin> set u" using u by (rule matches_Star_digit_no_dot)
    moreover have "CHR ''.'' \<notin> set a" using a by (rule matches_Cls_no_dot) (erule class_no_dot)
    moreover have "CHR ''.'' \<notin> set b" using b by (rule matches_Star_idchar_no_dot)
    ultimately show ?thesis using w v' by simp
  qed
  with matches_pre_ident_nonempty [OF assms] show ?thesis by (rule no_dot_dotted)
qed

lemma matches_Plus_idchar_dotted:
  assumes "matches (Plus idchar) w"
  shows "dotted w"
proof -
  from assms obtain u v where w: "w = u @ v" and u: "matches idchar u" and v: "matches (Star idchar) v"
    unfolding Plus_def by (rule matches_CatE)
  from u obtain x where x: "u = [x]" "x \<noteq> CHR ''.''"
    unfolding idchar_def by (auto elim!: matches_ClsE dest: class_no_dot)
  have "CHR ''.'' \<notin> set v"
    using v by (rule matches_Star_idchar_no_dot)
  then have "w \<noteq> []" "CHR ''.'' \<notin> set w" using w x by simp_all
  then show ?thesis by (rule no_dot_dotted)
qed

lemma canonical_dotted: "canonical w \<Longrightarrow> dotted w"
proof -
  assume "canonical w"
  from canonical_digits [OF this] have "w \<noteq> []" "CHR ''.'' \<notin> set w"
    by (auto simp: is_digit_def)
  then show ?thesis by (rule no_dot_dotted)
qed

lemma matches_pre_release_dotted: "matches pre_release w \<Longrightarrow> dotted w"
  unfolding pre_release_def by (erule matches_dotted_list) (rule matches_pre_ident_dotted)

lemma matches_build_meta_dotted: "matches build_meta w \<Longrightarrow> dotted w"
  unfolding build_meta_def by (erule matches_dotted_list) (rule matches_Plus_idchar_dotted)

lemma dotted_append_opt:
  assumes "dotted u" and "v = [] \<or> dotted v"
  shows "dotted (u @ (if v = [] then [] else a # v))"
  using assms dotted_append_sep [of u v a] by auto

lemma MatchString_re_dotted:
  assumes "MatchString re s"
  shows "dotted s"
proof -
  from MatchString_re_shape [OF assms] obtain w1 w2 w3 pre bld where r:
    "s = w1 @ ''.'' @ w2 @ ''.'' @ w3 @ (if pre = [] then [] else CHR ''-'' # pre)
          @ (if bld = [] then [] else CHR ''+'' # bld)"
    "canonical w1" "canonical w2" "canonical w3"
    "pre = [] \<or> matches pre_release pre" "bld = [] \<or> matches build_meta bld"
    by blast
  have pre: "pre = [] \<or> dotted pre" using r(5) matches_pre_release_dotted by blast
  have bld: "bld = [] \<or> dotted bld" using r(6) matches_build_meta_dotted by blast
  have "dotted (w3 @ (if pre = [] then [] else CHR ''-'' # pre))"
    using canonical_dotted [OF r(4)] pre by (rule dotted_append_opt)
  then have "dotted ((w3 @ (if pre = [] then [] else CHR ''-'' # pre))
      @ (if bld = [] then [] else CHR ''+'' # bld))"
    using bld by (rule dotted_append_opt)
  then have "dotted (w2 @ CHR ''.'' # ((w3 @ (if pre = [] then [] else CHR ''-'' # pre))
      @ (if bld = [] then [] else CHR ''+'' # bld)))"
    using canonical_dotted [OF r(3)] by (simp only: dotted_append_sep)
  then have "dotted (w1 @ CHR ''.'' # (w2 @ CHR ''.'' # ((w3 @ (if pre = [] then [] else CHR ''-'' # pre))
      @ (if bld = [] then [] else CHR ''+'' # bld))))"
    using canonical_dotted [OF r(2)] by (simp only: dotted_append_sep)
  then show ?thesis unfolding r(1) by simp
qed

lemma not_MatchString_dotdot: "\<not> MatchString re (a @ ''..'' @ b)"
  using MatchString_re_dotted [of "a @ ''..'' @ b"] dotdot_infix [of a b]
  by (auto simp: dotted_def)

lemma not_MatchString_trailing_dot: "\<not> MatchString re (a @ ''.'')"
  using MatchString_re_dotted [of "a @ ''.''"] by (auto simp: dotted_def)

lemma TrimPrefix_append:
  "\<exists>a'. TrimPrefix (a @ CHR ''.'' # b) ''v'' = a' @ CHR ''.'' # b"
proof (cases "take 1 (a @ CHR ''.'' # b) = ''v''")
  case True
  then obtain a' where "a = CHR ''v'' # a'" by (cases a) simp_all
  then have "TrimPrefix (a @ CHR ''.'' # b) ''v'' = a' @ CHR ''.'' # b"
    by (simp add: TrimPrefix_def)
  then show ?thesis by blast
next
  case False
  then have "TrimPrefix (a @ CHR ''.'' # b) ''v'' = a @ CHR ''.'' # b"
    by (simp add: TrimPrefix_def)
  then show ?thesis by blast
qed

section \<open>The pattern accepts exactly the grammar of the specification\<close>

lemma canonical_code [code]:
  "canonical w =
     (case w of [] \<Rightarrow> False
      | x # t \<Rightarrow> (x = CHR ''0'' \<and> t = []) \<or> (CHR ''1'' \<le> x \<and> x \<le> CHR ''9'' \<and> list_all is_digit t))"
  by (cases w) (auto simp: canonical_def list_all_iff)

lemma cut_at_notin: "a \<notin> set u \<Longrightarrow> cut_at a u = (u, None)"
proof -
  assume "a \<notin> set u"
  then have "\<forall>x\<in>set u. x \<noteq> a" by blast
  then have t: "takeWhile (\<lambda>x. x \<noteq> a) u = u" and d: "dropWhile (\<lambda>x. x \<noteq> a) u = []"
    by simp_all
  show ?thesis unfolding cut_at_def t d by simp
qed

lemma cut_at_first: "a \<notin> set u \<Longrightarrow> cut_at a (u @ a # v) = (u, Some v)"
proof -
  assume "a \<notin> set u"
  then have "\<And>x. x \<in> set u \<Longrightarrow> x \<noteq> a" by blast
  then have t: "takeWhile (\<lambda>x. x \<noteq> a) (u @ a # v) = u @ takeWhile (\<lambda>x. x \<noteq> a) (a # v)"
    and d: "dropWhile (\<lambda>x. x \<noteq> a) (u @ a # v) = dropWhile (\<lambda>x. x \<noteq> a) (a # v)"
    by simp_all
  show ?thesis unfolding cut_at_def t d by simp
qed

lemma cut_at_cases:
  "(\<exists>u. cut_at a s = (u, None) \<and> s = u \<and> a \<notin> set u) \<or>
   (\<exists>u v. cut_at a s = (u, Some v) \<and> s = u @ a # v \<and> a \<notin> set u)"
proof (cases "a \<in> set s")
  case False
  then show ?thesis using cut_at_notin [of a s] by simp
next
  case True
  then obtain u v where s: "s = u @ a # v" and u: "a \<notin> set u"
    by (auto dest: split_list_first)
  then show ?thesis using cut_at_first [OF u, of v] by simp
qed

lemma split_on_nonempty: "split_on a s \<noteq> []"
  by (induction s) (auto split: list.splits)

lemma split_on_notin: "a \<notin> set u \<Longrightarrow> split_on a u = [u]"
  by (induction u) auto

lemma split_on_first: "a \<notin> set u \<Longrightarrow> split_on a (u @ a # v) = u # split_on a v"
  by (induction u) auto

lemma split_on_inv:
  "split_on a s = h # r \<Longrightarrow>
   a \<notin> set h \<and>
   ((r = [] \<and> s = h) \<or> (r \<noteq> [] \<and> (\<exists>t. s = h @ a # t \<and> split_on a t = r)))"
proof (cases "a \<in> set s")
  case False
  assume "split_on a s = h # r"
  then show ?thesis using False split_on_notin [OF False] by simp
next
  case True
  assume *: "split_on a s = h # r"
  from True obtain u v where s: "s = u @ a # v" and u: "a \<notin> set u"
    by (auto dest: split_list_first)
  from * have "h = u" "r = split_on a v" unfolding s split_on_first [OF u] by simp_all
  then show ?thesis using s u split_on_nonempty [of a v] by auto
qed

lemma split_on_chars: "x \<in> set s \<Longrightarrow> x = a \<or> (\<exists>seg\<in>set (split_on a s). x \<in> set seg)"
proof (induction s)
  case Nil
  then show ?case by simp
next
  case (Cons y s)
  obtain h r where hr: "split_on a s = h # r" using split_on_nonempty [of a s] by (cases "split_on a s") auto
  show ?case
  proof (cases "y = a")
    case True
    then show ?thesis using Cons by auto
  next
    case False
    then have sp: "split_on a (y # s) = (y # h) # r" using hr by simp
    from Cons.prems consider "x = y" | "x \<in> set s" by auto
    then show ?thesis
    proof cases
      case 1
      then show ?thesis unfolding sp by simp
    next
      case 2
      from Cons.IH [OF 2] show ?thesis unfolding sp hr by auto
    qed
  qed
qed

lemma idchar_class:
  "in_class x [(CHR ''0'', CHR ''9''), (CHR ''a'', CHR ''z''), (CHR ''A'', CHR ''Z''),
               (CHR ''-'', CHR ''-'')] \<longleftrightarrow> is_idchar x"
  by (auto simp: in_class_def is_idchar_def is_digit_def)

lemma letter_class:
  "in_class x [(CHR ''a'', CHR ''z''), (CHR ''A'', CHR ''Z''), (CHR ''-'', CHR ''-'')]
     \<longleftrightarrow> is_idchar x \<and> \<not> is_digit x"
proof -
  have "CHR ''a'' \<le> x \<Longrightarrow> \<not> is_digit x" "CHR ''A'' \<le> x \<Longrightarrow> \<not> is_digit x"
    "\<not> is_digit CHR ''-''"
    by (auto simp: is_digit_def less_eq_char_def)
  then show ?thesis by (auto simp: in_class_def is_idchar_def)
qed

lemma nonzero_class:
  "in_class x [(CHR ''1'', CHR ''9'')] \<longleftrightarrow> CHR ''1'' \<le> x \<and> x \<le> CHR ''9''"
  by (simp add: in_class_def)

lemma is_digit_idchar: "is_digit x \<Longrightarrow> is_idchar x"
  by (simp add: is_idchar_def)

lemma is_idchar_not_sep: "\<not> is_idchar CHR ''.''" "\<not> is_idchar CHR ''+''"
  by (simp_all add: is_idchar_def is_digit_def)

lemma is_digit_not_sep: "\<not> is_digit CHR ''-''" "\<not> is_digit CHR ''.''" "\<not> is_digit CHR ''+''"
  by (simp_all add: is_digit_def)

lemma matches_Star_idchar: "matches (Star idchar) w \<Longrightarrow> list_all is_idchar w"
  using matches_Star_Cls [of "Star idchar" w] by (simp add: idchar_def idchar_class list_all_iff)

lemma canonical_idchar: "canonical w \<Longrightarrow> list_all is_idchar w"
  using canonical_digits [of w] by (auto simp: list_all_iff is_digit_idchar)

lemma matches_pre_ident_identifier:
  assumes "matches pre_ident w"
  shows "prerelease_identifier w"
proof -
  from assms consider
      (zero) "matches (Lit CHR ''0'') w"
    | (number) "matches (Cat (Cls [(CHR ''1'', CHR ''9'')]) (Star digit)) w"
    | (alnum) "matches (Cat (Star digit)
         (Cat (Cls [(CHR ''a'', CHR ''z''), (CHR ''A'', CHR ''Z''), (CHR ''-'', CHR ''-'')])
              (Star idchar))) w"
    unfolding pre_ident_def by (blast elim: matches_AltE)
  then show ?thesis
  proof cases
    case zero
    then have "matches numeric w" unfolding numeric_def by (rule m_Alt1)
    then show ?thesis by (simp add: prerelease_identifier_def matches_numeric)
  next
    case number
    then have "matches numeric w" unfolding numeric_def by (rule m_Alt2)
    then show ?thesis by (simp add: prerelease_identifier_def matches_numeric)
  next
    case alnum
    then obtain u v where w: "w = u @ v" and u: "matches (Star digit) u"
      and v: "matches (Cat (Cls [(CHR ''a'', CHR ''z''), (CHR ''A'', CHR ''Z''), (CHR ''-'', CHR ''-'')])
              (Star idchar)) v"
      by (rule matches_CatE)
    from v obtain a b where v': "v = a @ b"
      and a: "matches (Cls [(CHR ''a'', CHR ''z''), (CHR ''A'', CHR ''Z''), (CHR ''-'', CHR ''-'')]) a"
      and b: "matches (Star idchar) b"
      by (rule matches_CatE)
    from a obtain x where x: "a = [x]" "is_idchar x" "\<not> is_digit x"
      by (auto elim: matches_ClsE simp: letter_class)
    have "list_all is_idchar u"
      using matches_Star_digit [OF u] by (auto simp: list_all_iff is_digit_idchar)
    moreover have "list_all is_idchar b" using b by (rule matches_Star_idchar)
    ultimately have "list_all is_idchar w" "\<not> list_all is_digit w"
      using w v' x by simp_all
    then show ?thesis by (simp add: prerelease_identifier_def)
  qed
qed

lemma matches_Plus_idchar_identifier:
  assumes "matches (Plus idchar) w"
  shows "build_identifier w"
proof -
  from assms obtain u v where w: "w = u @ v" and u: "matches idchar u" and v: "matches (Star idchar) v"
    unfolding Plus_def by (rule matches_CatE)
  from u obtain x where x: "u = [x]" "is_idchar x"
    unfolding idchar_def by (auto elim: matches_ClsE simp: idchar_class)
  then show ?thesis using w matches_Star_idchar [OF v] by (simp add: build_identifier_def)
qed

lemma prerelease_identifier_idchar: "prerelease_identifier w \<Longrightarrow> list_all is_idchar w"
  unfolding prerelease_identifier_def using canonical_idchar by blast

lemma build_identifier_idchar: "build_identifier w \<Longrightarrow> list_all is_idchar w"
  by (simp add: build_identifier_def)

lemma idchar_no_dot: "list_all is_idchar w \<Longrightarrow> CHR ''.'' \<notin> set w"
  using is_idchar_not_sep(1) by (auto simp: list_all_iff)

lemma matches_dot_segments:
  "matches r v \<Longrightarrow> r = Star (Cat (Lit CHR ''.'') X) \<Longrightarrow>
   (\<And>u. matches X u \<Longrightarrow> Q u \<and> CHR ''.'' \<notin> set u) \<Longrightarrow>
   v = [] \<or> (\<exists>t. v = CHR ''.'' # t \<and> list_all Q (split_on CHR ''.'' t))"
proof (induction rule: matches.induct)
  case (m_Star r u v)
  from m_Star.prems(1) m_Star.hyps(1) have "matches (Cat (Lit CHR ''.'') X) u" by simp
  then obtain a b where ab: "u = a @ b" "matches (Lit CHR ''.'') a" "matches X b"
    by (rule matches_CatE)
  from ab(2) have a: "a = ''.''" by (rule matches_LitE)
  have b: "Q b" "CHR ''.'' \<notin> set b" using m_Star.prems(2) [OF ab(3)] by simp_all
  from m_Star.IH(2) [OF m_Star.prems(1) m_Star.prems(2)]
  consider "v = []" | t where "v = CHR ''.'' # t" "list_all Q (split_on CHR ''.'' t)" by blast
  then show ?case
  proof cases
    case 1
    then have "u @ v = CHR ''.'' # b" using ab(1) a by simp
    moreover have "list_all Q (split_on CHR ''.'' b)" using b by (simp add: split_on_notin)
    ultimately show ?thesis by blast
  next
    case 2
    then have "u @ v = CHR ''.'' # (b @ CHR ''.'' # t)" using ab(1) a by simp
    moreover have "list_all Q (split_on CHR ''.'' (b @ CHR ''.'' # t))"
      using b 2(2) by (simp add: split_on_first)
    ultimately show ?thesis by blast
  qed
qed simp_all

lemma matches_segments:
  assumes "matches (Cat X (Star (Cat (Lit CHR ''.'') X))) w"
    and "\<And>u. matches X u \<Longrightarrow> Q u \<and> CHR ''.'' \<notin> set u"
  shows "list_all Q (split_on CHR ''.'' w)"
proof -
  from assms(1) obtain u v where w: "w = u @ v" and u: "matches X u"
    and v: "matches (Star (Cat (Lit CHR ''.'') X)) v"
    by (rule matches_CatE)
  have qu: "Q u" "CHR ''.'' \<notin> set u" using assms(2) [OF u] by simp_all
  from matches_dot_segments [OF v refl assms(2)]
  consider "v = []" | t where "v = CHR ''.'' # t" "list_all Q (split_on CHR ''.'' t)" by blast
  then show ?thesis
  proof cases
    case 1
    then show ?thesis using w qu by (simp add: split_on_notin)
  next
    case 2
    then show ?thesis using w qu by (simp add: split_on_first)
  qed
qed

lemma matches_pre_release_segments:
  "matches pre_release p \<Longrightarrow> list_all prerelease_identifier (split_on CHR ''.'' p)"
  unfolding pre_release_def
  by (erule matches_segments)
     (simp add: matches_pre_ident_identifier prerelease_identifier_idchar idchar_no_dot)

lemma matches_build_meta_segments:
  "matches build_meta b \<Longrightarrow> list_all build_identifier (split_on CHR ''.'' b)"
  unfolding build_meta_def
  by (erule matches_segments)
     (simp add: matches_Plus_idchar_identifier build_identifier_idchar idchar_no_dot)

lemma segments_no_char:
  assumes "list_all Q (split_on CHR ''.'' p)" and "\<And>u. Q u \<Longrightarrow> list_all is_idchar u"
    and "\<not> is_idchar a" and "a \<noteq> CHR ''.''"
  shows "a \<notin> set p"
proof
  assume "a \<in> set p"
  from split_on_chars [OF this, of "CHR ''.''"] assms(4)
  obtain seg where "seg \<in> set (split_on CHR ''.'' p)" "a \<in> set seg" by blast
  then have "is_idchar a" using assms(1,2) by (auto simp: list_all_iff)
  then show False using assms(3) by simp
qed

lemma canonical_no_sep:
  assumes "canonical w"
  shows "CHR ''.'' \<notin> set w" "CHR ''-'' \<notin> set w" "CHR ''+'' \<notin> set w"
  using canonical_digits [OF assms] is_digit_not_sep by auto

lemma MatchString_re_grammar:
  assumes "MatchString re s"
  shows "semver_grammar s"
proof -
  from MatchString_re_shape [OF assms] obtain w1 w2 w3 pre bld where r:
    "s = w1 @ ''.'' @ w2 @ ''.'' @ w3 @ (if pre = [] then [] else CHR ''-'' # pre)
          @ (if bld = [] then [] else CHR ''+'' # bld)"
    "canonical w1" "canonical w2" "canonical w3"
    "pre = [] \<or> matches pre_release pre" "bld = [] \<or> matches build_meta bld"
    by blast
  define core where "core = w1 @ CHR ''.'' # w2 @ CHR ''.'' # w3"
  define front where "front = core @ (if pre = [] then [] else CHR ''-'' # pre)"
  have s: "s = front @ (if bld = [] then [] else CHR ''+'' # bld)"
    unfolding front_def core_def r(1) by simp
  have sp: "split_on CHR ''.'' core = [w1, w2, w3]"
    unfolding core_def using canonical_no_sep(1) [OF r(2)] canonical_no_sep(1) [OF r(3)]
      canonical_no_sep(1) [OF r(4)]
    by (simp add: split_on_first split_on_notin)
  have core_minus: "CHR ''-'' \<notin> set core" and core_plus: "CHR ''+'' \<notin> set core"
    unfolding core_def
    using canonical_no_sep(2,3) [OF r(2)] canonical_no_sep(2,3) [OF r(3)]
      canonical_no_sep(2,3) [OF r(4)]
    by simp_all
  have pre_seg: "list_all prerelease_identifier (split_on CHR ''.'' pre)" if "pre \<noteq> []"
    using that r(5) matches_pre_release_segments by blast
  have pre_plus: "CHR ''+'' \<notin> set pre"
  proof (cases "pre = []")
    case True
    then show ?thesis by simp
  next
    case False
    from pre_seg [OF False] show ?thesis
      by (rule segments_no_char) (simp_all add: prerelease_identifier_idchar is_idchar_not_sep)
  qed
  have front_plus: "CHR ''+'' \<notin> set front"
    unfolding front_def using core_plus pre_plus by simp
  have c1: "cut_at CHR ''+'' s = (front, if bld = [] then None else Some bld)"
    unfolding s using front_plus by (simp add: cut_at_notin cut_at_first)
  have c2: "cut_at CHR ''-'' front = (core, if pre = [] then None else Some pre)"
    unfolding front_def using core_minus by (simp add: cut_at_notin cut_at_first)
  have "core_text s = core" "prerelease_text s = (if pre = [] then None else Some pre)"
    "build_text s = (if bld = [] then None else Some bld)"
    unfolding core_text_def prerelease_text_def build_text_def c1 by (simp_all add: c2)
  moreover have "list_all build_identifier (split_on CHR ''.'' bld)" if "bld \<noteq> []"
    using that r(6) matches_build_meta_segments by blast
  ultimately show ?thesis
    unfolding semver_grammar_def using sp r(2-4) pre_seg by simp
qed

lemma matches_Star_ClsI: "\<forall>y\<in>set v. in_class y rs \<Longrightarrow> matches (Star (Cls rs)) v"
proof (induction v)
  case Nil
  show ?case by (rule m_Star0)
next
  case (Cons y v)
  then have "matches (Cls rs) [y]" "matches (Star (Cls rs)) v" by (simp_all add: m_Cls)
  then have "matches (Star (Cls rs)) ([y] @ v)" by (rule m_Star)
  then show ?case by simp
qed

lemma matches_Star_digitI: "list_all is_digit v \<Longrightarrow> matches (Star digit) v"
  unfolding digit_def by (rule matches_Star_ClsI) (simp add: digit_class list_all_iff)

lemma matches_Star_idcharI: "list_all is_idchar v \<Longrightarrow> matches (Star idchar) v"
  unfolding idchar_def by (rule matches_Star_ClsI) (simp add: idchar_class list_all_iff)

lemma canonical_matches_number:
  assumes "canonical w"
  shows "matches (Alt (Lit CHR ''0'') (Cat (Cls [(CHR ''1'', CHR ''9'')]) (Star digit))) w"
proof -
  from assms consider "w = ''0''"
    | x t where "w = x # t" "CHR ''1'' \<le> x" "x \<le> CHR ''9''" "\<forall>y\<in>set t. is_digit y"
    unfolding canonical_def by blast
  then show ?thesis
  proof cases
    case 1
    have "matches (Lit CHR ''0'') ''0''" by (rule m_Lit)
    then show ?thesis unfolding 1 by (rule m_Alt1)
  next
    case 2
    have "matches (Cls [(CHR ''1'', CHR ''9'')]) [x]"
      using 2(2,3) by (intro m_Cls) (simp add: nonzero_class)
    moreover have "matches (Star digit) t"
      using 2(4) by (intro matches_Star_digitI) (simp add: list_all_iff)
    ultimately have "matches (Cat (Cls [(CHR ''1'', CHR ''9'')]) (Star digit)) ([x] @ t)"
      by (rule m_Cat)
    then show ?thesis unfolding 2(1) by (simp add: m_Alt2)
  qed
qed

lemma canonical_matches_numeric: "canonical w \<Longrightarrow> matches numeric w"
  unfolding numeric_def by (rule canonical_matches_number)

lemma identifier_matches_pre_ident:
  assumes "prerelease_identifier w"
  shows "matches pre_ident w"
proof (cases "canonical w")
  case True
  from canonical_matches_number [OF True] show ?thesis
    unfolding pre_ident_def by (auto elim!: matches_AltE intro: m_Alt1 m_Alt2)
next
  case False
  then have id: "list_all is_idchar w" and nd: "\<not> list_all is_digit w"
    using assms by (simp_all add: prerelease_identifier_def)
  define u where "u = takeWhile is_digit w"
  define v where "v = dropWhile is_digit w"
  have w: "w = u @ v" unfolding u_def v_def by simp
  have "v \<noteq> []" unfolding v_def using nd by (simp add: list_all_iff)
  then obtain x b where v: "v = x # b" by (cases v) auto
  have "\<not> is_digit x" using hd_dropWhile [of is_digit w] v unfolding v_def by auto
  moreover have "is_idchar x" "list_all is_idchar b" using id unfolding w v by simp_all
  moreover have "list_all is_digit u" unfolding u_def by (simp add: list_all_iff) (meson set_takeWhileD)
  ultimately have
    "matches (Cls [(CHR ''a'', CHR ''z''), (CHR ''A'', CHR ''Z''), (CHR ''-'', CHR ''-'')]) [x]"
    "matches (Star idchar) b" "matches (Star digit) u"
    by (simp_all add: m_Cls letter_class matches_Star_idcharI matches_Star_digitI)
  then have "matches (Cat (Star digit)
         (Cat (Cls [(CHR ''a'', CHR ''z''), (CHR ''A'', CHR ''Z''), (CHR ''-'', CHR ''-'')])
              (Star idchar))) (u @ ([x] @ b))"
    by (intro m_Cat)
  then show ?thesis unfolding pre_ident_def w v by (simp add: m_Alt2)
qed

lemma identifier_matches_Plus_idchar:
  assumes "build_identifier w"
  shows "matches (Plus idchar) w"
proof -
  from assms obtain x t where w: "w = x # t" and x: "is_idchar x" and t: "list_all is_idchar t"
    unfolding build_identifier_def by (cases w) auto
  have "matches idchar [x]" unfolding idchar_def using x by (intro m_Cls) (simp add: idchar_class)
  moreover have "matches (Star idchar) t" using t by (rule matches_Star_idcharI)
  ultimately have "matches (Cat idchar (Star idchar)) ([x] @ t)" by (rule m_Cat)
  then show ?thesis unfolding Plus_def w by simp
qed

lemma segments_matches_tail:
  "split_on CHR ''.'' p = h # r \<Longrightarrow> list_all Q r \<Longrightarrow> (\<And>u. Q u \<Longrightarrow> matches X u) \<Longrightarrow>
   \<exists>v. p = h @ v \<and> matches (Star (Cat (Lit CHR ''.'') X)) v"
proof (induction r arbitrary: h p)
  case Nil
  from split_on_inv [OF Nil.prems(1)] have "p = h @ []" by simp
  moreover have "matches (Star (Cat (Lit CHR ''.'') X)) []" by (rule m_Star0)
  ultimately show ?case by blast
next
  case (Cons h' r)
  from split_on_inv [OF Cons.prems(1)] obtain t
    where t: "p = h @ CHR ''.'' # t" "split_on CHR ''.'' t = h' # r" by auto
  from Cons.prems(2) have q: "Q h'" "list_all Q r" by simp_all
  from Cons.IH [OF t(2) q(2) Cons.prems(3)] obtain v
    where v: "t = h' @ v" "matches (Star (Cat (Lit CHR ''.'') X)) v" by blast
  have "matches (Lit CHR ''.'') ''.''" by (rule m_Lit)
  moreover have "matches X h'" using q(1) by (rule Cons.prems(3))
  ultimately have "matches (Cat (Lit CHR ''.'') X) (''.'' @ h')" by (rule m_Cat)
  then have "matches (Star (Cat (Lit CHR ''.'') X)) ((''.'' @ h') @ v)" using v(2) by (rule m_Star)
  moreover have "p = h @ ((''.'' @ h') @ v)" using t(1) v(1) by simp
  ultimately show ?case by blast
qed

lemma segments_matches:
  assumes "list_all Q (split_on CHR ''.'' p)" and "\<And>u. Q u \<Longrightarrow> matches X u"
  shows "matches (Cat X (Star (Cat (Lit CHR ''.'') X))) p"
proof -
  obtain h r where hr: "split_on CHR ''.'' p = h # r"
    using split_on_nonempty [of "CHR ''.''" p] by (cases "split_on CHR ''.'' p") auto
  from assms(1) have q: "Q h" "list_all Q r" unfolding hr by simp_all
  from segments_matches_tail [OF hr q(2) assms(2)] obtain v
    where v: "p = h @ v" "matches (Star (Cat (Lit CHR ''.'') X)) v" by blast
  have "matches X h" using q(1) by (rule assms(2))
  then have "matches (Cat X (Star (Cat (Lit CHR ''.'') X))) (h @ v)" using v(2) by (rule m_Cat)
  then show ?thesis unfolding v(1) .
qed

lemma segments_matches_pre_release:
  "list_all prerelease_identifier (split_on CHR ''.'' p) \<Longrightarrow> matches pre_release p"
  unfolding pre_release_def by (erule segments_matches) (rule identifier_matches_pre_ident)

lemma segments_matches_build_meta:
  "list_all build_identifier (split_on CHR ''.'' b) \<Longrightarrow> matches build_meta b"
  unfolding build_meta_def by (erule segments_matches) (rule identifier_matches_Plus_idchar)

lemma matches_opt_group:
  assumes "case g of None \<Rightarrow> True | Some x \<Rightarrow> matches r x"
  shows "matches (Quest (Cat (Lit a) (Cap i r))) (opt_part a g)"
proof (cases g)
  case None
  then show ?thesis by (simp add: opt_part_def m_Quest0)
next
  case (Some x)
  then have "matches r x" using assms by simp
  then have "matches (Cap i r) x" by (rule m_Cap)
  with m_Lit [of a] have "matches (Cat (Lit a) (Cap i r)) ([a] @ x)" by (rule m_Cat)
  then have "matches (Quest (Cat (Lit a) (Cap i r))) ([a] @ x)" by (rule m_Quest)
  then show ?thesis using Some by (simp add: opt_part_def)
qed

lemma grammar_parts:
  assumes "semver_grammar s"
  shows "\<exists>w1 w2 w3 pre bld.
     s = w1 @ ''.'' @ w2 @ ''.'' @ w3 @ opt_part CHR ''-'' pre @ opt_part CHR ''+'' bld \<and>
     canonical w1 \<and> canonical w2 \<and> canonical w3 \<and>
     (case pre of None \<Rightarrow> True | Some p \<Rightarrow> list_all prerelease_identifier (split_on CHR ''.'' p)) \<and>
     (case bld of None \<Rightarrow> True | Some b \<Rightarrow> list_all build_identifier (split_on CHR ''.'' b))"
proof -
  obtain front bld where c1: "cut_at CHR ''+'' s = (front, bld)" by (cases "cut_at CHR ''+'' s")
  obtain core pre where c2: "cut_at CHR ''-'' front = (core, pre)" by (cases "cut_at CHR ''-'' front")
  have s: "s = front @ opt_part CHR ''+'' bld"
    using cut_at_cases [of "CHR ''+''" s] c1 by (auto simp: opt_part_def)
  have f: "front = core @ opt_part CHR ''-'' pre"
    using cut_at_cases [of "CHR ''-''" front] c2 by (auto simp: opt_part_def)
  have t: "core_text s = core" "prerelease_text s = pre" "build_text s = bld"
    by (simp_all add: core_text_def prerelease_text_def build_text_def c1 c2)
  from assms obtain w1 w2 w3 where sp: "split_on CHR ''.'' core = [w1, w2, w3]"
    and c: "canonical w1" "canonical w2" "canonical w3"
    unfolding semver_grammar_def t by (auto split: list.splits)
  from split_on_inv [OF sp] obtain t1 where t1: "core = w1 @ CHR ''.'' # t1"
    "split_on CHR ''.'' t1 = [w2, w3]" by auto
  from split_on_inv [OF t1(2)] obtain t2 where t2: "t1 = w2 @ CHR ''.'' # t2"
    "split_on CHR ''.'' t2 = [w3]" by auto
  from split_on_inv [OF t2(2)] have t3: "t2 = w3" by auto
  have "s = w1 @ ''.'' @ w2 @ ''.'' @ w3 @ opt_part CHR ''-'' pre @ opt_part CHR ''+'' bld"
    unfolding s f t1(1) t2(1) t3 by simp
  moreover have "case pre of None \<Rightarrow> True | Some p \<Rightarrow> list_all prerelease_identifier (split_on CHR ''.'' p)"
    "case bld of None \<Rightarrow> True | Some b \<Rightarrow> list_all build_identifier (split_on CHR ''.'' b)"
    using assms unfolding semver_grammar_def t by simp_all
  ultimately show ?thesis using c by blast
qed

lemma grammar_matches_re:
  assumes "semver_grammar s"
  shows "matches re s"
proof -
  from grammar_parts [OF assms] obtain w1 w2 w3 pre bld where r:
    "s = w1 @ ''.'' @ w2 @ ''.'' @ w3 @ opt_part CHR ''-'' pre @ opt_part CHR ''+'' bld"
    "canonical w1" "canonical w2" "canonical w3"
    "case pre of None \<Rightarrow> True | Some p \<Rightarrow> list_all prerelease_identifier (split_on CHR ''.'' p)"
    "case bld of None \<Rightarrow> True | Some b \<Rightarrow> list_all build_identifier (split_on CHR ''.'' b)"
    by blast
  have pre: "matches (Quest (Cat (Lit CHR ''-'') (Cap 4 pre_release))) (opt_part CHR ''-'' pre)"
    using r(5) by (intro matches_opt_group) (auto split: option.splits intro: segments_matches_pre_release)
  have bld: "matches (Quest (Cat (Lit CHR ''+'') (Cap 5 build_meta))) (opt_part CHR ''+'' bld)"
    using r(6) by (intro matches_opt_group) (auto split: option.splits intro: segments_matches_build_meta)
  have n: "matches (Cap 1 numeric) w1" "matches (Cap 2 numeric) w2" "matches (Cap 3 numeric) w3"
    using r(2-4) by (simp_all add: m_Cap canonical_matches_numeric)
  have dot: "matches (Lit CHR ''.'') ''.''" by (rule m_Lit)
  have 7: "matches tail7 (opt_part CHR ''+'' bld @ [])"
    unfolding tail7_def using bld m_End by (rule m_Cat)
  have 6: "matches tail6 (opt_part CHR ''-'' pre @ opt_part CHR ''+'' bld @ [])"
    unfolding tail6_def using pre 7 by (rule m_Cat)
  have 5: "matches tail5 (w3 @ opt_part CHR ''-'' pre @ opt_part CHR ''+'' bld @ [])"
    unfolding tail5_def using n(3) 6 by (rule m_Cat)
  have 4: "matches (Cat (Lit CHR ''.'') tail5)
      (''.'' @ w3 @ opt_part CHR ''-'' pre @ opt_part CHR ''+'' bld @ [])"
    using dot 5 by (rule m_Cat)
  have 3: "matches tail3 (w2 @ ''.'' @ w3 @ opt_part CHR ''-'' pre @ opt_part CHR ''+'' bld @ [])"
    unfolding tail3_def using n(2) 4 by (rule m_Cat)
  have 2: "matches (Cat (Lit CHR ''.'') tail3)
      (''.'' @ w2 @ ''.'' @ w3 @ opt_part CHR ''-'' pre @ opt_part CHR ''+'' bld @ [])"
    using dot 3 by (rule m_Cat)
  have 1: "matches tail1
      (w1 @ ''.'' @ w2 @ ''.'' @ w3 @ opt_part CHR ''-'' pre @ opt_part CHR ''+'' bld @ [])"
    unfolding tail1_def using n(1) 2 by (rule m_Cat)
  have "matches (Cat BeginText tail1)
      ([] @ w1 @ ''.'' @ w2 @ ''.'' @ w3 @ opt_part CHR ''-'' pre @ opt_part CHR ''+'' bld @ [])"
    using m_Begin 1 by (rule m_Cat)
  then show ?thesis unfolding re_tail r(1) by simp
qed

lemma MatchString_re_grammar_iff: "MatchString re s \<longleftrightarrow> semver_grammar s"
  using MatchString_re_grammar grammar_matches_re matches_re_MatchString by blast

section \<open>Comparison\<close>

lemma Compare_cases: "Compare a b = 1 \<or> Compare a b = 0 \<or> Compare a b = -1"
  by (simp add: Compare_def)

lemma Compare_refl: "Compare a a = 0"
  by (simp add: Compare_def)

lemma Compare_eq_iff:
  "Compare a b = 0 \<longleftrightarrow>
     Major a = Major b \<and> Minor a = Minor b \<and> Patch a = Patch b \<and> PreRelease a = PreRelease b"
  unfolding Compare_def by (auto simp: not_less)

lemma Compare_gt_iff:
  "Compare a b = 1 \<longleftrightarrow>
     Major b < Major a \<or> Major a = Major b \<and>
    (Minor b < Minor a \<or> Minor a = Minor b \<and>
    (Patch b < Patch a \<or> Patch a = Patch b \<and>
    (PreRelease a = [] \<and> PreRelease b \<noteq> [] \<or>
     PreRelease a \<noteq> [] \<and> PreRelease b \<noteq> [] \<and> PreRelease b < PreRelease a)))"
  unfolding Compare_def by (auto simp: not_less)

lemma Compare_trans: "Compare a b = 1 \<Longrightarrow> Compare b c = 1 \<Longrightarrow> Compare a c = 1"
  unfolding Compare_gt_iff by (elim disjE conjE) (auto dest: less_trans)

lemma Compare_total: "Compare a b = 1 \<or> Compare a b = 0 \<or> Compare b a = 1"
proof (cases "Major a" "Major b" rule: linorder_cases)
  case equal
  note M = this
  show ?thesis
  proof (cases "Minor a" "Minor b" rule: linorder_cases)
    case equal
    note N = this
    show ?thesis
    proof (cases "Patch a" "Patch b" rule: linorder_cases)
      case equal
      note P = this
      show ?thesis
      proof (cases "PreRelease a" "PreRelease b" rule: linorder_cases)
        case equal
        then show ?thesis using M N P by (simp add: Compare_eq_iff)
      next
        case less
        then show ?thesis using M N P
          by (cases "PreRelease a = []") (auto simp: Compare_gt_iff)
      next
        case greater
        then show ?thesis using M N P
          by (cases "PreRelease b = []") (auto simp: Compare_gt_iff)
      qed
    qed (simp_all add: Compare_gt_iff M N)
  qed (simp_all add: Compare_gt_iff M)
qed (simp_all add: Compare_gt_iff)

lemma Compare_asym: "Compare a b = 1 \<Longrightarrow> Compare b a \<noteq> 1"
  using Compare_trans [of a b a] Compare_refl [of a] by auto

lemma Compare_antisym: "Compare a b = - Compare b a"
proof -
  consider "Compare a b = 1" | "Compare a b = 0" | "Compare a b = -1"
    using Compare_cases by blast
  then show ?thesis
  proof cases
    case 1
    then have "Compare b a \<noteq> 1" "Compare b a \<noteq> 0"
      using Compare_asym [of a b] Compare_eq_iff [of a b] Compare_eq_iff [of b a] by auto
    then show ?thesis using 1 Compare_cases [of b a] by auto
  next
    case 2
    then have "Compare b a = 0"
      using Compare_eq_iff [of a b] Compare_eq_iff [of b a] by auto
    then show ?thesis using 2 by simp
  next
    case 3
    then have "Compare b a = 1" using Compare_total [of a b] by auto
    then show ?thesis using 3 by simp
  qed
qed

text \<open>
  Claim C4. \<open>Compare\<close> is a strict total order compatible with equality on major, minor,
  patch and prerelease only: it is 0 on equal arguments, swapping the arguments negates
  the result, being greater is transitive, the result is 0 exactly when the two versions
  agree on major, minor, patch and prerelease, and so a version whose build metadata alone
  was changed compares equal to the original.
\<close>

theorem Compare_strict_total_order:
  "Compare a a = 0 \<and>
   Compare a b = - Compare b a \<and>
   (Compare a b = 1 \<and> Compare b c = 1 \<longrightarrow> Compare a c = 1) \<and>
   (Compare a b = 0 \<longleftrightarrow>
      Major a = Major b \<and> Minor a = Minor b \<and> Patch a = Patch b \<and>
      PreRelease a = PreRelease b) \<and>
   Compare (a\<lparr>Build := x\<rparr>) a = 0"
proof (intro conjI)
  show "Compare a a = 0" by (rule Compare_refl)
  show "Compare a b = - Compare b a" by (rule Compare_antisym)
  show "Compare a b = 1 \<and> Compare b c = 1 \<longrightarrow> Compare a c = 1"
    using Compare_trans by blast
  show "Compare a b = 0 \<longleftrightarrow>
      Major a = Major b \<and> Minor a = Minor b \<and> Patch a = Patch b \<and>
      PreRelease a = PreRelease b"
    by (rule Compare_eq_iff)
  show "Compare (a\<lparr>Build := x\<rparr>) a = 0" by (simp add: Compare_eq_iff)
qed

theorem Compare_strict_total_order_witness:
  "Compare \<lparr>Major = 2, Minor = 0, Patch = 0, PreRelease = [], Build = []\<rparr>
           \<lparr>Major = 1, Minor = 9, Patch = 9, PreRelease = [], Build = []\<rparr> = 1 \<and>
   Compare \<lparr>Major = 1, Minor = 9, Patch = 9, PreRelease = [], Build = []\<rparr>
           \<lparr>Major = 1, Minor = 9, Patch = 9, PreRelease = ''rc'', Build = ''7''\<rparr> = 1 \<and>
   Compare \<lparr>Major = 2, Minor = 0, Patch = 0, PreRelease = [], Build = []\<rparr>
           \<lparr>Major = 1, Minor = 9, Patch = 9, PreRelease = ''rc'', Build = ''7''\<rparr> = 1"
  using Compare_strict_total_order
    [of "\<lparr>Major = 2, Minor = 0, Patch = 0, PreRelease = [], Build = []\<rparr>"
        "\<lparr>Major = 1, Minor = 9, Patch = 9, PreRelease = [], Build = []\<rparr>"
        "\<lparr>Major = 1, Minor = 9, Patch = 9, PreRelease = ''rc'', Build = ''7''\<rparr>"]
  by (simp add: Compare_def)

lemma Parse_1_0_0:
  "Parse ''1.0.0'' = Inr \<lparr>Major = 1, Minor = 0, Patch = 0, PreRelease = [], Build = []\<rparr>"
  by code_simp

lemma Parse_1_0_0_alpha:
  "Parse ''1.0.0-alpha'' =
     Inr \<lparr>Major = 1, Minor = 0, Patch = 0, PreRelease = ''alpha'', Build = []\<rparr>"
  by code_simp

text \<open>
  Claim C5. Of two versions equal on major, minor and patch, exactly one of which has a
  non-empty prerelease, \<open>Compare\<close> ranks the one without prerelease strictly greater; in
  particular the parsed \<^verbatim>\<open>1.0.0\<close> compares greater than the parsed \<^verbatim>\<open>1.0.0-alpha\<close>.
\<close>

theorem Compare_release_above_prerelease:
  "(Major a = Major b \<and> Minor a = Minor b \<and> Patch a = Patch b \<and>
    PreRelease a = [] \<and> PreRelease b \<noteq> [] \<longrightarrow> Compare a b = 1 \<and> Compare b a = -1) \<and>
   (case (Parse ''1.0.0'', Parse ''1.0.0-alpha'') of
      (Inr v, Inr w) \<Rightarrow> Compare v w = 1
    | _ \<Rightarrow> False)"
  unfolding Parse_1_0_0 Parse_1_0_0_alpha by (simp add: Compare_def)

theorem Compare_release_above_prerelease_witness:
  "Compare \<lparr>Major = 1, Minor = 2, Patch = 3, PreRelease = [], Build = []\<rparr>
           \<lparr>Major = 1, Minor = 2, Patch = 3, PreRelease = ''beta'', Build = []\<rparr> = 1 \<and>
   Compare \<lparr>Major = 1, Minor = 2, Patch = 3, PreRelease = ''beta'', Build = []\<rparr>
           \<lparr>Major = 1, Minor = 2, Patch = 3, PreRelease = [], Build = []\<rparr> = -1"
  using Compare_release_above_prerelease
    [of "\<lparr>Major = 1, Minor = 2, Patch = 3, PreRelease = [], Build = []\<rparr>"
        "\<lparr>Major = 1, Minor = 2, Patch = 3, PreRelease = ''beta'', Build = []\<rparr>"]
  by simp

section \<open>Parsing: the error paths\<close>

text \<open>
  Claim C2, as the code has it. \<open>TryParse\<close> returns \<open>ErrEmpty\<close> exactly when the input
  itself has zero length; the input is not trimmed of whitespace.
\<close>

theorem TryParse_ErrEmpty_iff:
  "snd (TryParse input) = Some ErrEmpty \<longleftrightarrow> input = []"
  unfolding TryParse_def by (simp add: Let_def split: if_splits sum.splits)

text \<open>
  The claim C2 as stated fails on a whitespace-only input: three spaces are not the empty
  string, they fail the pattern, and the error is \<open>ErrInvalidFormat\<close>.
\<close>

theorem TryParse_whitespace_counterexample:
  "TryParse ''   '' = (zero_Version, Some ErrInvalidFormat) \<and>
   snd (TryParse ''   '') \<noteq> Some ErrEmpty"
  by code_simp

text \<open>
  Claim C7. Whenever \<open>TryParse\<close> returns an error, the Version returned with it is the
  zero value: major, minor and patch 0, prerelease and build empty.
\<close>

theorem TryParse_error_zero_Version:
  "snd (TryParse input) \<noteq> None \<Longrightarrow>
   fst (TryParse input) = \<lparr>Major = 0, Minor = 0, Patch = 0, PreRelease = [], Build = []\<rparr>"
  unfolding TryParse_def zero_Version_def
  by (simp add: Let_def split: if_splits sum.splits)

theorem TryParse_error_zero_Version_witness:
  "snd (TryParse ''1.2.x'') \<noteq> None \<and>
   fst (TryParse ''1.2.x'') = \<lparr>Major = 0, Minor = 0, Patch = 0, PreRelease = [], Build = []\<rparr>"
proof -
  have h: "snd (TryParse ''1.2.x'') \<noteq> None" by code_simp
  show ?thesis using h TryParse_error_zero_Version [OF h] by simp
qed

text \<open>
  Claim C9. The input \<^verbatim>\<open>v\<close> is not empty when the emptiness check runs, the prefix is
  stripped afterwards, and the empty rest fails the pattern: the error is
  \<open>ErrInvalidFormat\<close>, not \<open>ErrEmpty\<close>.
\<close>

theorem TryParse_v_only:
  "TryParse ''v'' = (zero_Version, Some ErrInvalidFormat) \<and>
   snd (TryParse ''v'') \<noteq> Some ErrEmpty"
  by code_simp

text \<open>
  Claim C6. When \<open>TryParse\<close> succeeds on a string that does not start with \<^verbatim>\<open>v\<close>, it
  succeeds on that string prefixed with \<^verbatim>\<open>v\<close> too, with the same Version and no error.
\<close>

theorem TryParse_prefix_normalization:
  "TryParse s = (ver, None) \<Longrightarrow> take 1 s \<noteq> ''v'' \<Longrightarrow> TryParse (''v'' @ s) = (ver, None)"
  unfolding TryParse_def by (auto simp add: TrimPrefix_def split: if_splits)

theorem TryParse_prefix_normalization_witness:
  "TryParse ''2.1.3'' =
     (\<lparr>Major = 2, Minor = 1, Patch = 3, PreRelease = [], Build = []\<rparr>, None) \<and>
   take 1 ''2.1.3'' \<noteq> ''v'' \<and>
   TryParse ''v2.1.3'' =
     (\<lparr>Major = 2, Minor = 1, Patch = 3, PreRelease = [], Build = []\<rparr>, None)"
proof -
  have h: "TryParse ''2.1.3'' =
     (\<lparr>Major = 2, Minor = 1, Patch = 3, PreRelease = [], Build = []\<rparr>, None)"
    by code_simp
  have k: "take 1 ''2.1.3'' \<noteq> ''v''" by simp
  show ?thesis using h k TryParse_prefix_normalization [OF h k] by simp
qed

section \<open>Parsing: matched input\<close>




text \<open>
  Claim C3, as the code has it. For every string that matches the pattern and whose three
  numerals (groups 1 to 3) each denote a number below \<open>2 ^ 64\<close>, \<open>TryParse\<close> succeeds and
  \<open>String\<close> of the Version it returns is the string itself.
\<close>

theorem TryParse_round_trip:
  assumes "MatchString re s"
    and "ms = FindStringSubmatch re s"
    and "dec_val (ms ! 1) < 2 ^ 64" and "dec_val (ms ! 2) < 2 ^ 64" and "dec_val (ms ! 3) < 2 ^ 64"
  shows "snd (TryParse s) = None \<and> String (fst (TryParse s)) = s"
proof -
  have t: "TrimPrefix s ''v'' = s" using assms(1) by (rule TrimPrefix_matched)
  have ne: "s \<noteq> []" using MatchString_re_digit [OF assms(1)] by auto
  from TryParse_matched [OF ne] assms(1) obtain w1 w2 w3 pre bld where r:
    "FindStringSubmatch re s = [s, w1, w2, w3, pre, bld]"
    "s = w1 @ ''.'' @ w2 @ ''.'' @ w3 @ (if pre = [] then [] else CHR ''-'' # pre)
          @ (if bld = [] then [] else CHR ''+'' # bld)"
    "canonical w1" "canonical w2" "canonical w3"
    "TryParse s =
       (if 2 ^ 64 \<le> dec_val w1 then (zero_Version, Some (ErrNumeric w1 ErrRange))
        else if 2 ^ 64 \<le> dec_val w2 then (zero_Version, Some (ErrNumeric w2 ErrRange))
        else if 2 ^ 64 \<le> dec_val w3 then (zero_Version, Some (ErrNumeric w3 ErrRange))
        else (\<lparr>Major = word_of_nat (dec_val w1), Minor = word_of_nat (dec_val w2),
               Patch = word_of_nat (dec_val w3), PreRelease = pre, Build = bld\<rparr>, None))"
    unfolding t by blast
  have b: "dec_val w1 < 2 ^ 64" "dec_val w2 < 2 ^ 64" "dec_val w3 < 2 ^ 64"
    using assms(3-5) unfolding assms(2) r(1) by simp_all
  have tp: "TryParse s = (\<lparr>Major = word_of_nat (dec_val w1), Minor = word_of_nat (dec_val w2),
               Patch = word_of_nat (dec_val w3), PreRelease = pre, Build = bld\<rparr>, None)"
    unfolding r(6) using b by (simp add: not_le)
  show ?thesis
    unfolding tp using String_parsed [OF r(3-5) b, of pre bld] r(2) by simp
qed

theorem TryParse_round_trip_witness:
  "MatchString re ''1.2.3-beta+exp.sha.5114f85'' \<and>
   dec_val (FindStringSubmatch re ''1.2.3-beta+exp.sha.5114f85'' ! 1) < 2 ^ 64 \<and>
   dec_val (FindStringSubmatch re ''1.2.3-beta+exp.sha.5114f85'' ! 2) < 2 ^ 64 \<and>
   dec_val (FindStringSubmatch re ''1.2.3-beta+exp.sha.5114f85'' ! 3) < 2 ^ 64 \<and>
   snd (TryParse ''1.2.3-beta+exp.sha.5114f85'') = None \<and>
   String (fst (TryParse ''1.2.3-beta+exp.sha.5114f85'')) = ''1.2.3-beta+exp.sha.5114f85''"
proof -
  have h1: "MatchString re ''1.2.3-beta+exp.sha.5114f85''" by code_simp
  have ms: "FindStringSubmatch re ''1.2.3-beta+exp.sha.5114f85'' =
      [''1.2.3-beta+exp.sha.5114f85'', ''1'', ''2'', ''3'', ''beta'', ''exp.sha.5114f85'']"
    by code_simp
  have h2: "dec_val (FindStringSubmatch re ''1.2.3-beta+exp.sha.5114f85'' ! 1) < 2 ^ 64"
    unfolding ms by (simp add: dec_val_def)
  have h3: "dec_val (FindStringSubmatch re ''1.2.3-beta+exp.sha.5114f85'' ! 2) < 2 ^ 64"
    unfolding ms by (simp add: dec_val_def)
  have h4: "dec_val (FindStringSubmatch re ''1.2.3-beta+exp.sha.5114f85'' ! 3) < 2 ^ 64"
    unfolding ms by (simp add: dec_val_def)
  from TryParse_round_trip [OF h1 refl h2 h3 h4] h1 h2 h3 h4 show ?thesis by blast
qed

text \<open>
  The claim C3 as stated fails: \<^verbatim>\<open>18446744073709551616.0.0\<close> has no \<^verbatim>\<open>v\<close> prefix and
  matches the pattern, and \<open>TryParse\<close> does not succeed on it.
\<close>

theorem TryParse_round_trip_counterexample:
  "MatchString re ''18446744073709551616.0.0'' \<and>
   take 1 ''18446744073709551616.0.0'' \<noteq> ''v'' \<and>
   snd (TryParse ''18446744073709551616.0.0'') \<noteq> None"
  by code_simp

text \<open>
  Claim C10. Only one lowercase \<^verbatim>\<open>v\<close> is taken as a prefix: for every string that
  \<open>TryParse\<close> accepts and that does not start with \<^verbatim>\<open>v\<close>, the string prefixed with
  \<^verbatim>\<open>V\<close> and the string prefixed with \<^verbatim>\<open>vv\<close> are both rejected with \<open>ErrInvalidFormat\<close>.
\<close>

theorem TryParse_other_prefixes:
  assumes "TryParse s = (ver, None)" and "take 1 s \<noteq> ''v''"
  shows "TryParse (''V'' @ s) = (zero_Version, Some ErrInvalidFormat) \<and>
         TryParse (''vv'' @ s) = (zero_Version, Some ErrInvalidFormat)"
proof -
  have 1: "\<not> MatchString re (CHR ''V'' # s)"
    using MatchString_re_digit [of "CHR ''V'' # s"] by (auto simp: is_digit_def)
  have 2: "\<not> MatchString re (CHR ''v'' # s)"
    using MatchString_re_digit [of "CHR ''v'' # s"] by (auto simp: is_digit_def)
  show ?thesis
    using 1 2 by (simp add: TryParse_def TrimPrefix_def)
qed

theorem TryParse_other_prefixes_witness:
  "TryParse ''1.0.0-alpha'' =
     (\<lparr>Major = 1, Minor = 0, Patch = 0, PreRelease = ''alpha'', Build = []\<rparr>, None) \<and>
   take 1 ''1.0.0-alpha'' \<noteq> ''v'' \<and>
   TryParse ''V1.0.0-alpha'' = (zero_Version, Some ErrInvalidFormat) \<and>
   TryParse ''vv1.0.0-alpha'' = (zero_Version, Some ErrInvalidFormat)"
proof -
  have h: "TryParse ''1.0.0-alpha'' =
     (\<lparr>Major = 1, Minor = 0, Patch = 0, PreRelease = ''alpha'', Build = []\<rparr>, None)"
    by code_simp
  have k: "take 1 ''1.0.0-alpha'' \<noteq> ''v''" by simp
  show ?thesis using h k TryParse_other_prefixes [OF h k] by simp
qed

text \<open>
  Claim C8. \<open>TryParse\<close> rejects \<^verbatim>\<open>1.2\<close>, \<^verbatim>\<open>invalid-version\<close> and \<^verbatim>\<open>1.2.3.4\<close> with
  \<open>ErrInvalidFormat\<close>, and so it does every non-empty input whose prefix-stripped text the
  pattern does not match. The pattern matches a text exactly when the text follows the
  grammar of the specification, in full, so every non-empty input whose prefix-stripped
  text is outside that grammar is rejected with \<open>ErrInvalidFormat\<close>. In particular an
  input is rejected when its prerelease or its build metadata has an empty segment,
  wherever the segment stands, and when two dots are adjacent or a dot ends the input.
\<close>

theorem TryParse_rejects_unmatched:
  "TryParse ''1.2'' = (zero_Version, Some ErrInvalidFormat) \<and>
   TryParse ''invalid-version'' = (zero_Version, Some ErrInvalidFormat) \<and>
   TryParse ''1.2.3.4'' = (zero_Version, Some ErrInvalidFormat) \<and>
   (input \<noteq> [] \<and> \<not> MatchString re (TrimPrefix input ''v'') \<longrightarrow>
      TryParse input = (zero_Version, Some ErrInvalidFormat)) \<and>
   TryParse (a @ ''..'' @ b) = (zero_Version, Some ErrInvalidFormat) \<and>
   TryParse (a @ ''.'') = (zero_Version, Some ErrInvalidFormat) \<and>
   (MatchString re s \<longleftrightarrow> semver_grammar s) \<and>
   (input \<noteq> [] \<and> \<not> semver_grammar (TrimPrefix input ''v'') \<longrightarrow>
      TryParse input = (zero_Version, Some ErrInvalidFormat)) \<and>
   (u \<noteq> [] \<and> prerelease_text (TrimPrefix u ''v'') = Some p \<and> [] \<in> set (split_on CHR ''.'' p) \<longrightarrow>
      TryParse u = (zero_Version, Some ErrInvalidFormat)) \<and>
   (w \<noteq> [] \<and> build_text (TrimPrefix w ''v'') = Some q \<and> [] \<in> set (split_on CHR ''.'' q) \<longrightarrow>
      TryParse w = (zero_Version, Some ErrInvalidFormat))"
proof (intro conjI)
  show "TryParse ''1.2'' = (zero_Version, Some ErrInvalidFormat)" by code_simp
  show "TryParse ''invalid-version'' = (zero_Version, Some ErrInvalidFormat)" by code_simp
  show "TryParse ''1.2.3.4'' = (zero_Version, Some ErrInvalidFormat)" by code_simp
  show "input \<noteq> [] \<and> \<not> MatchString re (TrimPrefix input ''v'') \<longrightarrow>
      TryParse input = (zero_Version, Some ErrInvalidFormat)"
    by (simp add: TryParse_def)
  show "TryParse (a @ ''..'' @ b) = (zero_Version, Some ErrInvalidFormat)"
  proof -
    from TrimPrefix_append [of a "''.'' @ b"] obtain a'
      where "TrimPrefix (a @ ''..'' @ b) ''v'' = a' @ ''..'' @ b" by auto
    then have "\<not> MatchString re (TrimPrefix (a @ ''..'' @ b) ''v'')"
      using not_MatchString_dotdot [of a' b] by simp
    then show ?thesis by (simp add: TryParse_def)
  qed
  show "TryParse (a @ ''.'') = (zero_Version, Some ErrInvalidFormat)"
  proof -
    from TrimPrefix_append [of a "[]"] obtain a'
      where "TrimPrefix (a @ ''.'') ''v'' = a' @ ''.''" by auto
    then have "\<not> MatchString re (TrimPrefix (a @ ''.'') ''v'')"
      using not_MatchString_trailing_dot [of a'] by simp
    then show ?thesis by (simp add: TryParse_def)
  qed
  show "MatchString re s \<longleftrightarrow> semver_grammar s" by (rule MatchString_re_grammar_iff)
  show "input \<noteq> [] \<and> \<not> semver_grammar (TrimPrefix input ''v'') \<longrightarrow>
      TryParse input = (zero_Version, Some ErrInvalidFormat)"
    by (simp add: TryParse_def MatchString_re_grammar_iff)
  show "u \<noteq> [] \<and> prerelease_text (TrimPrefix u ''v'') = Some p \<and> [] \<in> set (split_on CHR ''.'' p) \<longrightarrow>
      TryParse u = (zero_Version, Some ErrInvalidFormat)"
  proof (intro impI, elim conjE)
    assume ne: "u \<noteq> []" and t: "prerelease_text (TrimPrefix u ''v'') = Some p"
      and e: "[] \<in> set (split_on CHR ''.'' p)"
    have "\<not> prerelease_identifier []" by (simp add: prerelease_identifier_def canonical_def)
    then have "\<not> list_all prerelease_identifier (split_on CHR ''.'' p)"
      using e by (auto simp: list_all_iff)
    then have "\<not> semver_grammar (TrimPrefix u ''v'')" by (simp add: semver_grammar_def t)
    then show "TryParse u = (zero_Version, Some ErrInvalidFormat)"
      using ne by (simp add: TryParse_def MatchString_re_grammar_iff)
  qed
  show "w \<noteq> [] \<and> build_text (TrimPrefix w ''v'') = Some q \<and> [] \<in> set (split_on CHR ''.'' q) \<longrightarrow>
      TryParse w = (zero_Version, Some ErrInvalidFormat)"
  proof (intro impI, elim conjE)
    assume ne: "w \<noteq> []" and t: "build_text (TrimPrefix w ''v'') = Some q"
      and e: "[] \<in> set (split_on CHR ''.'' q)"
    have "\<not> build_identifier []" by (simp add: build_identifier_def)
    then have "\<not> list_all build_identifier (split_on CHR ''.'' q)"
      using e by (auto simp: list_all_iff)
    then have "\<not> semver_grammar (TrimPrefix w ''v'')" by (simp add: semver_grammar_def t)
    then show "TryParse w = (zero_Version, Some ErrInvalidFormat)"
      using ne by (simp add: TryParse_def MatchString_re_grammar_iff)
  qed
qed

theorem TryParse_rejects_unmatched_witness:
  "''v1.2.3-rc..1'' \<noteq> [] \<and> \<not> MatchString re (TrimPrefix ''v1.2.3-rc..1'' ''v'') \<and>
   \<not> semver_grammar (TrimPrefix ''v1.2.3-rc..1'' ''v'') \<and>
   TryParse ''v1.2.3-rc..1'' = (zero_Version, Some ErrInvalidFormat) \<and>
   ''1.2.3-rc.+b'' \<noteq> [] \<and> prerelease_text (TrimPrefix ''1.2.3-rc.+b'' ''v'') = Some ''rc.'' \<and>
   [] \<in> set (split_on CHR ''.'' ''rc.'') \<and>
   TryParse ''1.2.3-rc.+b'' = (zero_Version, Some ErrInvalidFormat) \<and>
   ''v1.2.3+.b'' \<noteq> [] \<and> build_text (TrimPrefix ''v1.2.3+.b'' ''v'') = Some ''.b'' \<and>
   [] \<in> set (split_on CHR ''.'' ''.b'') \<and>
   TryParse ''v1.2.3+.b'' = (zero_Version, Some ErrInvalidFormat)"
proof -
  have h1: "''v1.2.3-rc..1'' \<noteq> [] \<and> \<not> MatchString re (TrimPrefix ''v1.2.3-rc..1'' ''v'')"
    by code_simp
  have h2: "\<not> semver_grammar (TrimPrefix ''v1.2.3-rc..1'' ''v'')" by code_simp
  have h3: "''1.2.3-rc.+b'' \<noteq> [] \<and> prerelease_text (TrimPrefix ''1.2.3-rc.+b'' ''v'') = Some ''rc.'' \<and>
      [] \<in> set (split_on CHR ''.'' ''rc.'')"
    by code_simp
  have h4: "''v1.2.3+.b'' \<noteq> [] \<and> build_text (TrimPrefix ''v1.2.3+.b'' ''v'') = Some ''.b'' \<and>
      [] \<in> set (split_on CHR ''.'' ''.b'')"
    by code_simp
  from TryParse_rejects_unmatched
    [where input = "''v1.2.3-rc..1''" and u = "''1.2.3-rc.+b''" and p = "''rc.''"
       and w = "''v1.2.3+.b''" and q = "''.b''"]
    h1 h2 h3 h4
  show ?thesis by blast
qed

end
